theory Spec2Isabelle
  imports Main "HOL-Library.Word"
begin

section \<open>Interleavings\<close>

text \<open>
  Every script of the repository starts a fixed set of workers (threads or processes) and
  joins them. A worker is modelled as a small machine with a program point; one step of the
  whole program is one step of one worker. A schedule is the list of events (for most
  scripts the indices of the workers) in the order in which they happen; \<open>run\<close> executes
  a schedule and is \<open>None\<close> as soon as the schedule picks a worker that cannot step (it
  is blocked or has returned). Quantifying over all schedules quantifies over all
  interleavings.
\<close>

fun run :: "('e \<Rightarrow> 's \<Rightarrow> 's option) \<Rightarrow> 'e list \<Rightarrow> 's \<Rightarrow> 's option" where
  "run stp [] s = Some s"
| "run stp (i # sched) s = (case stp i s of None \<Rightarrow> None | Some s' \<Rightarrow> run stp sched s')"

section \<open>The guarded counter: \<open>08_thread_lock.py\<close> and \<open>12_process_value.py\<close>\<close>

text \<open>
  \<^verbatim>\<open>
  def increment():
      global counter
      for _ in range(100000):
          with lock:
              counter += 1
  \<close>
  The program points of one worker inside one iteration of the loop:
  \<open>ENTER\<close> is before \<open>with lock:\<close> (the acquire), \<open>LOAD\<close> is inside the block before
  \<open>counter\<close> is read, \<open>STORE t\<close> is after the read of the value \<open>t\<close> and before the
  write of \<open>t + 1\<close>, \<open>EXIT\<close> is after the write and before the block is left (the
  release). \<open>RAISED\<close> is a worker that died of the \<open>RuntimeError\<close> that releasing an
  unlocked lock raises.
\<close>

datatype pc = ENTER | LOAD | STORE int | EXIT | RAISED

record worker =
  todo :: nat
  at :: pc

text \<open>
  \<open>holder\<close> is the lock: \<open>None\<close> when it is free, \<open>Some i\<close> when worker \<open>i\<close> acquired it.
  The counter has the type \<open>'c\<close> of the memory cell: a Python integer in the thread
  script, a C \<open>int\<close> in the process script.
\<close>

record 'c shared =
  counter :: 'c
  holder :: "nat option"
  workers :: "worker list"

text \<open>
  A memory cell is read into a Python integer and written from one. For the global
  variable of the thread script both are the identity; for \<open>Value('i', 0)\<close> the read is
  the signed reading of the 32-bit cell and the write keeps the low 32 bits.
\<close>

record 'c cell =
  rd :: "'c \<Rightarrow> int"
  wr :: "int \<Rightarrow> 'c"

definition py_global :: "int cell" where
  "py_global = \<lparr>rd = (\<lambda>v. v), wr = (\<lambda>v. v)\<rparr>"

definition c_int :: "32 word cell" where
  "c_int = \<lparr>rd = sint, wr = word_of_int\<rparr>"

definition set_worker :: "nat \<Rightarrow> worker \<Rightarrow> 'c shared \<Rightarrow> 'c shared" where
  "set_worker i w s = s\<lparr>workers := (workers s)[i := w]\<rparr>"

definition increment_step :: "'c cell \<Rightarrow> nat \<Rightarrow> 'c shared \<Rightarrow> 'c shared option" where
  "increment_step m i s =
     (if length (workers s) \<le> i then None
      else let w = workers s ! i in
        case at w of
          ENTER \<Rightarrow>
            if todo w = 0 then None
            else if holder s \<noteq> None then None
            else Some (set_worker i (w\<lparr>at := LOAD\<rparr>) (s\<lparr>holder := Some i\<rparr>))
        | LOAD \<Rightarrow> Some (set_worker i (w\<lparr>at := STORE (rd m (counter s))\<rparr>) s)
        | STORE t \<Rightarrow> Some (set_worker i (w\<lparr>at := EXIT\<rparr>) (s\<lparr>counter := wr m (t + 1)\<rparr>))
        | EXIT \<Rightarrow>
            if holder s = None then Some (set_worker i (w\<lparr>at := RAISED\<rparr>) s)
            else Some (set_worker i (w\<lparr>at := ENTER, todo := todo w - 1\<rparr>) (s\<lparr>holder := None\<rparr>))
        | RAISED \<Rightarrow> None)"

definition start :: "'c \<Rightarrow> nat \<Rightarrow> nat \<Rightarrow> 'c shared" where
  "start c0 n k = \<lparr>counter = c0, holder = None, workers = replicate n \<lparr>todo = k, at = ENTER\<rparr>\<rparr>"

definition returned :: "worker \<Rightarrow> bool" where
  "returned w = (at w = ENTER \<and> todo w = 0)"

definition all_joined :: "'c shared \<Rightarrow> bool" where
  "all_joined s = list_all returned (workers s)"

text \<open>The two scripts: 10 threads and 4 processes, 100000 iterations each.\<close>

definition thread_lock_main :: "int shared" where
  "thread_lock_main = start 0 10 100000"

definition process_value_main :: "32 word shared" where
  "process_value_main = start 0 4 100000"

subsection \<open>The invariant of the guarded counter\<close>

text \<open>
  \<open>bodies_done k w\<close> counts the executions of the block's body \<open>counter += 1\<close> that worker
  \<open>w\<close> has completed, out of \<open>k\<close> iterations: the iterations it has left behind, and
  the current one once its write has happened.
\<close>

definition bodies_done :: "nat \<Rightarrow> worker \<Rightarrow> nat" where
  "bodies_done k w = k - todo w + (if at w = EXIT then 1 else 0)"

definition total_done :: "nat \<Rightarrow> 'c shared \<Rightarrow> nat" where
  "total_done k s = sum_list (map (bodies_done k) (workers s))"

definition cell_ok :: "'c cell \<Rightarrow> bool" where
  "cell_ok m = (\<forall>v. wr m (rd m (wr m v) + 1) = wr m (v + 1))"

definition worker_ok :: "'c cell \<Rightarrow> nat \<Rightarrow> 'c \<Rightarrow> nat option \<Rightarrow> nat \<Rightarrow> worker \<Rightarrow> bool" where
  "worker_ok m k c h i w =
     (todo w \<le> k \<and> at w \<noteq> RAISED \<and>
      (at w \<noteq> ENTER \<longrightarrow> h = Some i \<and> 0 < todo w) \<and>
      (\<forall>t. at w = STORE t \<longrightarrow> t = rd m c))"

definition guarded_inv :: "'c cell \<Rightarrow> nat \<Rightarrow> 'c shared \<Rightarrow> bool" where
  "guarded_inv m k s =
     ((\<forall>i < length (workers s). worker_ok m k (counter s) (holder s) i (workers s ! i)) \<and>
      (\<forall>i. holder s = Some i \<longrightarrow> i < length (workers s) \<and> at (workers s ! i) \<noteq> ENTER) \<and>
      counter s = wr m (int (total_done k s)))"

text \<open>Each step uses up one of the four program points of one iteration.\<close>

definition steps_left :: "worker \<Rightarrow> nat" where
  "steps_left w = 4 * todo w - (case at w of ENTER \<Rightarrow> 0 | LOAD \<Rightarrow> 1 | STORE t \<Rightarrow> 2 | EXIT \<Rightarrow> 3 | RAISED \<Rightarrow> 0)"

definition rank :: "'c shared \<Rightarrow> nat" where
  "rank s = sum_list (map steps_left (workers s))"

section \<open>The unguarded counter: \<open>09_race_condition.py\<close>\<close>

text \<open>
  \<^verbatim>\<open>
  def restock():
      global chai_stock
      for _ in range(100000):
          chai_stock += 1
  \<close>
  The same workers without the lock. \<open>ENTER\<close> is the head of the loop, \<open>LOAD\<close> is before
  the read of \<open>chai_stock\<close>, \<open>STORE t\<close> is after the read of \<open>t\<close> and before the write
  of \<open>t + 1\<close>, which ends the iteration. Another worker may step between the read and the
  write. The script has no lock, so \<open>holder\<close> stays \<open>None\<close>; \<open>EXIT\<close> and \<open>RAISED\<close> are
  not program points of \<open>restock\<close>.
\<close>

definition restock_step :: "nat \<Rightarrow> int shared \<Rightarrow> int shared option" where
  "restock_step i s =
     (if length (workers s) \<le> i then None
      else let w = workers s ! i in
        case at w of
          ENTER \<Rightarrow> if todo w = 0 then None else Some (set_worker i (w\<lparr>at := LOAD\<rparr>) s)
        | LOAD \<Rightarrow> Some (set_worker i (w\<lparr>at := STORE (counter s)\<rparr>) s)
        | STORE t \<Rightarrow> Some (set_worker i (w\<lparr>at := ENTER, todo := todo w - 1\<rparr>) (s\<lparr>counter := t + 1\<rparr>))
        | EXIT \<Rightarrow> None
        | RAISED \<Rightarrow> None)"

text \<open>The script: two threads, 100000 iterations each, \<open>chai_stock = 0\<close>.\<close>

definition race_condition_main :: "int shared" where
  "race_condition_main = start 0 2 100000"

section \<open>The scoped lock: \<open>with lock:\<close>\<close>

text \<open>
  \<open>08_thread_lock.py\<close> spells out what the block does:
  \<^verbatim>\<open>
  lock.acquire()      # Wait for lock, then take it
  try:
      counter += 1    # Critical section
  finally:
      lock.release()  # Always release, even if exception
  \<close>
  A body is a function from the state at its start to the state at its end together with
  the exception it raised, if any.

  The lock of \<open>08_thread_lock.py\<close> is a \<open>threading.Lock\<close>: it has no owner and cannot be
  taken twice. \<open>with_lock i body s\<close> is worker \<open>i\<close> executing the block from state \<open>s\<close>:
  \<open>None\<close> when the acquire blocks (the lock is taken, by whomever), otherwise the state
  after the block and the exception that leaves it. The release of a lock that is not
  locked raises \<open>RuntimeError\<close>, which then is the exception that leaves the block.
\<close>

datatype py_exn = RuntimeError | AssertionError | BodyError string

definition with_lock ::
  "nat \<Rightarrow> ('c shared \<Rightarrow> 'c shared \<times> py_exn option) \<Rightarrow> 'c shared \<Rightarrow> ('c shared \<times> py_exn option) option" where
  "with_lock i body s =
     (case holder s of
        Some j \<Rightarrow> None
      | None \<Rightarrow>
          (case body (s\<lparr>holder := Some i\<rparr>) of
             (s2, r) \<Rightarrow>
               (case holder s2 of
                  None \<Rightarrow> Some (s2, Some RuntimeError)
                | Some j \<Rightarrow> Some (s2\<lparr>holder := None\<rparr>, r))))"

text \<open>The body of the block of \<open>08_thread_lock.py\<close>, \<open>counter += 1\<close>: it raises nothing.\<close>

definition counter_body :: "'c cell \<Rightarrow> 'c shared \<Rightarrow> 'c shared \<times> py_exn option" where
  "counter_body m s = (s\<lparr>counter := wr m (rd m (counter s) + 1)\<rparr>, None)"

text \<open>A worker is inside the block between its acquire and its release.\<close>

definition inside :: "worker \<Rightarrow> bool" where
  "inside w = (case at w of LOAD \<Rightarrow> True | STORE t \<Rightarrow> True | EXIT \<Rightarrow> True | ENTER \<Rightarrow> False | RAISED \<Rightarrow> False)"

subsection \<open>The re-entrant lock of \<open>Value\<close>\<close>

text \<open>
  \<^verbatim>\<open>
  with counter.get_lock():
      counter.value += 1
  \<close>
  The lock of \<open>12_process_value.py\<close> is the one \<open>Value('i', 0)\<close> creates, a re-entrant
  lock: it has an owner and a depth. The owner may acquire it again, which adds one to the
  depth; a release by the owner takes one from the depth and frees the lock when the depth
  was one; a release by anyone else raises \<open>AssertionError\<close>; an acquire by anyone else
  blocks while the lock has an owner. A \<open>value_obj\<close> is the shared object: its memory cell
  and its lock.
\<close>

record 'c value_obj =
  content :: 'c
  owner :: "nat option"
  depth :: nat

definition racquire :: "nat \<Rightarrow> 'c value_obj \<Rightarrow> 'c value_obj option" where
  "racquire i v =
     (case owner v of
        None \<Rightarrow> Some (v\<lparr>owner := Some i, depth := 1\<rparr>)
      | Some j \<Rightarrow> if j = i then Some (v\<lparr>depth := depth v + 1\<rparr>) else None)"

definition rrelease :: "nat \<Rightarrow> 'c value_obj \<Rightarrow> py_exn + 'c value_obj" where
  "rrelease i v =
     (if owner v = Some i
      then Inr (if depth v \<le> 1 then v\<lparr>owner := None, depth := 0\<rparr> else v\<lparr>depth := depth v - 1\<rparr>)
      else Inl AssertionError)"

definition with_rlock ::
  "nat \<Rightarrow> ('c value_obj \<Rightarrow> 'c value_obj \<times> py_exn option) \<Rightarrow> 'c value_obj
     \<Rightarrow> ('c value_obj \<times> py_exn option) option" where
  "with_rlock i body v =
     (case racquire i v of
        None \<Rightarrow> None
      | Some v1 \<Rightarrow>
          (case body v1 of
             (v2, r) \<Rightarrow>
               (case rrelease i v2 of
                  Inl e \<Rightarrow> Some (v2, Some e)
                | Inr v3 \<Rightarrow> Some (v3, r))))"

text \<open>The body of the block of \<open>12_process_value.py\<close>, \<open>counter.value += 1\<close>.\<close>

definition value_body :: "'c cell \<Rightarrow> 'c value_obj \<Rightarrow> 'c value_obj \<times> py_exn option" where
  "value_body m v = (v\<lparr>content := wr m (rd m (content v) + 1)\<rparr>, None)"

text \<open>
  A body keeps the lock when it ends with the lock as it found it (it has no acquire or
  release of its own, or they are paired).
\<close>

definition keeps_lock :: "('c value_obj \<Rightarrow> 'c value_obj \<times> py_exn option) \<Rightarrow> 'c value_obj \<Rightarrow> bool" where
  "keeps_lock body v = (owner (fst (body v)) = owner v \<and> depth (fst (body v)) = depth v)"

text \<open>
  In the program-point machine of the process script the lock is \<open>holder\<close>; no worker
  enters the block while it holds the lock, so the depth there is 0 or 1.
\<close>

definition value_of :: "'c shared \<Rightarrow> 'c value_obj" where
  "value_of s = \<lparr>content = counter s, owner = holder s, depth = (if holder s = None then 0 else 1)\<rparr>"

definition put_value :: "'c value_obj \<Rightarrow> 'c shared \<Rightarrow> 'c shared" where
  "put_value v s = s\<lparr>counter := content v, holder := owner v\<rparr>"

section \<open>Two locks in opposite order: \<open>10_deadlock.py\<close>\<close>

text \<open>
  \<^verbatim>\<open>
  def task1():                       def task2():
      with lock_a:                       with lock_b:
          time.sleep(0.1)                    time.sleep(0.1)
          with lock_b:                       with lock_a:
              print(...)                         print(...)
  \<close>
  The program points of a task: \<open>START\<close> before the outer block, \<open>HOLD1\<close> inside the
  outer block before the inner one (it holds its first lock), \<open>HOLD2\<close> inside the inner
  block (it holds both), \<open>LEAVE1\<close> after the inner block (it holds its first lock again
  only), \<open>FINISHED\<close> after the outer block. \<open>BACKOFF\<close> and \<open>TIMED_OUT\<close> belong to the
  variant with timeouts below. \<open>held_a\<close> and \<open>held_b\<close> are the two locks, \<open>None\<close> when
  free and \<open>Some i\<close> when task \<open>i\<close> acquired it; \<open>p1\<close> and \<open>p2\<close> are the program points
  of \<open>task1\<close> and \<open>task2\<close>.
\<close>

datatype dpc = START | HOLD1 | HOLD2 | LEAVE1 | FINISHED | BACKOFF | TIMED_OUT

record dstate =
  held_a :: "nat option"
  held_b :: "nat option"
  p1 :: dpc
  p2 :: dpc

definition task1 :: "dstate \<Rightarrow> dstate option" where
  "task1 s =
     (case p1 s of
        START \<Rightarrow> if held_a s = None then Some (s\<lparr>held_a := Some 1, p1 := HOLD1\<rparr>) else None
      | HOLD1 \<Rightarrow> if held_b s = None then Some (s\<lparr>held_b := Some 1, p1 := HOLD2\<rparr>) else None
      | HOLD2 \<Rightarrow> Some (s\<lparr>held_b := None, p1 := LEAVE1\<rparr>)
      | LEAVE1 \<Rightarrow> Some (s\<lparr>held_a := None, p1 := FINISHED\<rparr>)
      | FINISHED \<Rightarrow> None
      | BACKOFF \<Rightarrow> Some (s\<lparr>held_a := None, p1 := TIMED_OUT\<rparr>)
      | TIMED_OUT \<Rightarrow> None)"

definition task2 :: "dstate \<Rightarrow> dstate option" where
  "task2 s =
     (case p2 s of
        START \<Rightarrow> if held_b s = None then Some (s\<lparr>held_b := Some 2, p2 := HOLD1\<rparr>) else None
      | HOLD1 \<Rightarrow> if held_a s = None then Some (s\<lparr>held_a := Some 2, p2 := HOLD2\<rparr>) else None
      | HOLD2 \<Rightarrow> Some (s\<lparr>held_a := None, p2 := LEAVE1\<rparr>)
      | LEAVE1 \<Rightarrow> Some (s\<lparr>held_b := None, p2 := FINISHED\<rparr>)
      | FINISHED \<Rightarrow> None
      | BACKOFF \<Rightarrow> Some (s\<lparr>held_b := None, p2 := TIMED_OUT\<rparr>)
      | TIMED_OUT \<Rightarrow> None)"

text \<open>The two threads \<open>t1\<close> and \<open>t2\<close> of the script are the workers 1 and 2.\<close>

definition deadlock_step :: "nat \<Rightarrow> dstate \<Rightarrow> dstate option" where
  "deadlock_step i s = (if i = 1 then task1 s else if i = 2 then task2 s else None)"

definition deadlock_main :: dstate where
  "deadlock_main = \<lparr>held_a = None, held_b = None, p1 = START, p2 = START\<rparr>"

text \<open>The state the script's docstring draws: task 1 has A and wants B, task 2 has B and wants A.\<close>

definition circular_wait :: dstate where
  "circular_wait = \<lparr>held_a = Some 1, held_b = Some 2, p1 = HOLD1, p2 = HOLD1\<rparr>"

text \<open>The main thread prints "Both tasks completed" after both joins.\<close>

definition both_completed :: "dstate \<Rightarrow> bool" where
  "both_completed s = (p1 s = FINISHED \<and> p2 s = FINISHED)"

subsection \<open>The variant with timeouts\<close>

text \<open>
  Modelled from the spec: the scenario "with \<open>try_acquire(timeout=1)\<close> on both sides" is
  not a script of the repository; \<open>10_deadlock.py\<close> only sketches it in a comment:
  \<^verbatim>\<open>
  if lock_a.acquire(timeout=1):
      try:
          if lock_b.acquire(timeout=1):
              try: ...
              finally: lock_b.release()
          else:
              print("Couldn't get lock B, backing off")
      finally:
          lock_a.release()
  \<close>
  A timed acquire of a free lock succeeds as the untimed one does. A timed acquire of a
  taken lock waits, and its timeout may expire: that is the event \<open>Expire i\<close>, enabled
  while task \<open>i\<close> waits for a taken lock. When the timeout of the outer acquire expires the
  task ends (\<open>TIMED_OUT\<close>) holding nothing; when the timeout of the inner acquire expires
  the task is at \<open>BACKOFF\<close>, still holding its first lock, and its next step releases that
  lock and ends the task (\<open>TIMED_OUT\<close>). Real time is abstracted: the timeout of a waiting
  task may expire at any moment.
\<close>

datatype tevent = Go nat | Expire nat

definition expire1 :: "dstate \<Rightarrow> dstate option" where
  "expire1 s =
     (case p1 s of
        START \<Rightarrow> if held_a s \<noteq> None then Some (s\<lparr>p1 := TIMED_OUT\<rparr>) else None
      | HOLD1 \<Rightarrow> if held_b s \<noteq> None then Some (s\<lparr>p1 := BACKOFF\<rparr>) else None
      | _ \<Rightarrow> None)"

definition expire2 :: "dstate \<Rightarrow> dstate option" where
  "expire2 s =
     (case p2 s of
        START \<Rightarrow> if held_b s \<noteq> None then Some (s\<lparr>p2 := TIMED_OUT\<rparr>) else None
      | HOLD1 \<Rightarrow> if held_a s \<noteq> None then Some (s\<lparr>p2 := BACKOFF\<rparr>) else None
      | _ \<Rightarrow> None)"

fun timed_step :: "tevent \<Rightarrow> dstate \<Rightarrow> dstate option" where
  "timed_step (Go i) s = deadlock_step i s"
| "timed_step (Expire i) s = (if i = 1 then expire1 s else if i = 2 then expire2 s else None)"

definition gave_up :: "dpc \<Rightarrow> bool" where
  "gave_up p = (p = BACKOFF \<or> p = TIMED_OUT)"

text \<open>Who holds which lock is determined by the program points.\<close>

definition owns_first :: "dpc \<Rightarrow> bool" where
  "owns_first p = (p = HOLD1 \<or> p = HOLD2 \<or> p = LEAVE1 \<or> p = BACKOFF)"

definition lock_inv :: "dstate \<Rightarrow> bool" where
  "lock_inv s =
     (held_a s = (if owns_first (p1 s) then Some 1 else if p2 s = HOLD2 then Some 2 else None) \<and>
      held_b s = (if owns_first (p2 s) then Some 2 else if p1 s = HOLD2 then Some 1 else None) \<and>
      \<not> (owns_first (p1 s) \<and> p2 s = HOLD2) \<and> \<not> (owns_first (p2 s) \<and> p1 s = HOLD2))"

definition ended :: "dpc \<Rightarrow> bool" where
  "ended p = (p = FINISHED \<or> p = TIMED_OUT)"


section \<open>Daemon and non-daemon threads: \<open>07_daemon.py\<close> and \<open>08_non_daemon.py\<close>\<close>

text \<open>
  \<^verbatim>\<open>
  def monitor_tea_temp():
      while True:
          print("Monitoring tea temperature...")
          time.sleep(2)

  t = threading.Thread(target=monitor_tea_temp, daemon=True)   # 08: no daemon=True
  t.start()
  print("Main program done")
  \<close>
  The main thread is at \<open>M_CREATE\<close> before \<open>t.start()\<close>, at \<open>M_PRINT\<close> before its prints and
  at \<open>M_END\<close> when the script has run to its end. The monitor is at \<open>W_PRINT\<close> or
  \<open>W_SLEEP\<close> inside its loop; the loop has no exit, so no step leads to \<open>W_RETURNED\<close>.
  \<open>printed\<close> counts the lines the monitor has printed.

  The end of the program is the event \<open>Shutdown\<close>. As both scripts document it, the
  interpreter waits for every thread that is not a daemon before it exits, and kills the
  daemon threads when it exits: \<open>Shutdown\<close> is enabled once the main thread is at its end
  and the monitor is a daemon, has returned or was never started; it ends the program, and
  a monitor still in its loop is \<open>W_KILLED\<close>.
\<close>

datatype mpc = M_CREATE | M_PRINT | M_END

datatype wpc = W_NOT_STARTED | W_PRINT | W_SLEEP | W_RETURNED | W_KILLED

record program =
  daemon :: bool
  main_at :: mpc
  monitor_at :: wpc
  printed :: nat
  exited :: bool

datatype levent = Main | Monitor | Shutdown

definition main_thread :: "program \<Rightarrow> program option" where
  "main_thread s =
     (case main_at s of
        M_CREATE \<Rightarrow> Some (s\<lparr>main_at := M_PRINT, monitor_at := W_PRINT\<rparr>)
      | M_PRINT \<Rightarrow> Some (s\<lparr>main_at := M_END\<rparr>)
      | M_END \<Rightarrow> None)"

definition monitor_tea_temp :: "program \<Rightarrow> program option" where
  "monitor_tea_temp s =
     (case monitor_at s of
        W_PRINT \<Rightarrow> Some (s\<lparr>printed := printed s + 1, monitor_at := W_SLEEP\<rparr>)
      | W_SLEEP \<Rightarrow> Some (s\<lparr>monitor_at := W_PRINT\<rparr>)
      | _ \<Rightarrow> None)"

definition alive :: "wpc \<Rightarrow> bool" where
  "alive w = (w = W_PRINT \<or> w = W_SLEEP)"

definition shutdown :: "program \<Rightarrow> program option" where
  "shutdown s =
     (if main_at s = M_END \<and> (daemon s \<or> \<not> alive (monitor_at s))
      then Some (s\<lparr>exited := True,
                  monitor_at := (if alive (monitor_at s) then W_KILLED else monitor_at s)\<rparr>)
      else None)"

definition lifecycle_step :: "levent \<Rightarrow> program \<Rightarrow> program option" where
  "lifecycle_step e s =
     (if exited s then None
      else case e of Main \<Rightarrow> main_thread s | Monitor \<Rightarrow> monitor_tea_temp s | Shutdown \<Rightarrow> shutdown s)"

definition script :: "bool \<Rightarrow> program" where
  "script d = \<lparr>daemon = d, main_at = M_CREATE, monitor_at = W_NOT_STARTED, printed = 0, exited = False\<rparr>"

definition daemon_main :: program where
  "daemon_main = script True"

definition non_daemon_main :: program where
  "non_daemon_main = script False"

text \<open>What holds in every state a script reaches.\<close>

definition lifecycle_inv :: "program \<Rightarrow> bool" where
  "lifecycle_inv s =
     ((main_at s = M_CREATE \<longleftrightarrow> monitor_at s = W_NOT_STARTED) \<and>
      monitor_at s \<noteq> W_RETURNED \<and>
      (exited s \<longleftrightarrow> monitor_at s = W_KILLED) \<and>
      (exited s \<longrightarrow> daemon s \<and> main_at s = M_END))"

section \<open>The channel: hand-off between producers and consumers\<close>

text \<open>
  Modelled from the spec: the channel is the spec's \<open>BoundedChannel\<close> (sections 3 and
  4.2). The repository has no implementation of it: \<open>11_process_queue.py\<close> creates a
  \<open>multiprocessing.Queue\<close> of the Python library and calls \<open>put\<close> once and \<open>get\<close> once.

  A channel is an ordered sequence of items with a capacity (\<open>None\<close> is unbounded) and a
  closed flag. A \<open>put\<close> on a closed channel fails with \<open>ChannelClosedError\<close>; a \<open>put\<close> on a
  full channel waits, and fails with \<open>TimeoutError\<close> when its timeout runs out; otherwise
  the item is accepted at the end of the sequence. A \<open>get\<close> takes the first item; on an
  empty channel it fails with \<open>ChannelClosedError\<close> when the channel is closed and waits,
  failing with \<open>TimeoutError\<close> when its timeout runs out, when it is open. \<open>close\<close> is
  idempotent. A trace lists the operations in the order in which the channel serves them
  (a \<open>put\<close> that waits and is then accepted stands where it is accepted); each operation
  names the producer or consumer that issues it.
\<close>

datatype chan_error = ChannelClosedError | TimeoutError | SerializationError

record 'a channel =
  buffer :: "'a list"
  capacity :: "nat option"
  closed :: bool

datatype 'a chan_op = Put nat 'a | Get nat | Close

datatype 'a chan_result = Accepted | Got 'a | Failed chan_error | ClosedOk

definition full :: "'a channel \<Rightarrow> bool" where
  "full c = (case capacity c of None \<Rightarrow> False | Some n \<Rightarrow> n \<le> length (buffer c))"

definition put :: "'a \<Rightarrow> 'a channel \<Rightarrow> 'a channel \<times> 'a chan_result" where
  "put x c =
     (if closed c then (c, Failed ChannelClosedError)
      else if full c then (c, Failed TimeoutError)
      else (c\<lparr>buffer := buffer c @ [x]\<rparr>, Accepted))"

definition get :: "'a channel \<Rightarrow> 'a channel \<times> 'a chan_result" where
  "get c =
     (case buffer c of
        [] \<Rightarrow> (c, Failed (if closed c then ChannelClosedError else TimeoutError))
      | x # xs \<Rightarrow> (c\<lparr>buffer := xs\<rparr>, Got x))"

definition close :: "'a channel \<Rightarrow> 'a channel \<times> 'a chan_result" where
  "close c = (c\<lparr>closed := True\<rparr>, ClosedOk)"

fun chan_step :: "'a chan_op \<Rightarrow> 'a channel \<Rightarrow> 'a channel \<times> 'a chan_result" where
  "chan_step (Put p x) c = put x c"
| "chan_step (Get q) c = get c"
| "chan_step Close c = close c"

text \<open>Executing a trace: the final channel and the result of each operation, in order.\<close>

fun exec :: "'a chan_op list \<Rightarrow> 'a channel \<Rightarrow> 'a channel \<times> 'a chan_result list" where
  "exec [] c = (c, [])"
| "exec (op # ops) c =
     (case chan_step op c of (c1, r) \<Rightarrow> (case exec ops c1 of (c2, rs) \<Rightarrow> (c2, r # rs)))"

text \<open>The items of the accepted puts, in acceptance order, and the items the gets returned.\<close>

fun accepted :: "'a chan_op list \<Rightarrow> 'a chan_result list \<Rightarrow> 'a list" where
  "accepted (Put p x # ops) (Accepted # rs) = x # accepted ops rs"
| "accepted (op # ops) (r # rs) = accepted ops rs"
| "accepted _ _ = []"

fun delivered :: "'a chan_result list \<Rightarrow> 'a list" where
  "delivered (Got x # rs) = x # delivered rs"
| "delivered (r # rs) = delivered rs"
| "delivered [] = []"

definition new_channel :: "nat option \<Rightarrow> 'a channel" where
  "new_channel cap = \<lparr>buffer = [], capacity = cap, closed = False\<rparr>"

section \<open>The cooperative scheduler and \<open>await_all\<close>\<close>

text \<open>
  Modelled from the spec: the scheduler is the spec's \<open>CooperativeScheduler\<close> (section
  4.4). The repository has no implementation of it: \<open>02_async_two.py\<close> calls
  \<open>asyncio.gather\<close> of the Python library on three \<open>brew\<close> coroutines and awaits it.

  A task is \<open>PENDING\<close>, \<open>RUNNING\<close>, \<open>SUSPENDED\<close>, \<open>DONE\<close> with its result or \<open>FAILED\<close> with
  its error; a handle is the index of the task. The events are the transitions of the
  spec's state machine: \<open>Spawn\<close> registers a task as \<open>PENDING\<close>; \<open>Start\<close> and \<open>Resume\<close> make a
  task \<open>RUNNING\<close>, which needs that no task is running; \<open>Yield\<close> suspends the running task
  at a suspension point; \<open>Finish\<close> and \<open>Fail\<close> end the running task; \<open>Cancel\<close> fails a
  suspended task with \<open>CancelledError\<close>. \<open>AwaitAll c hs\<close> is the running task \<open>c\<close> calling
  \<open>await_all(hs)\<close>: it is suspended and recorded in \<open>waits\<close>. A task recorded there is
  resumed only when every listed task is \<open>DONE\<close> or \<open>FAILED\<close>, and it is then handed the
  states of the listed tasks in the order of the list; \<open>resumed\<close> records each such
  hand-over (caller, handles, aggregated result).
\<close>

datatype 'r tstate = PENDING | RUNNING | SUSPENDED | DONE 'r | FAILED string

record 'r scheduler =
  tasks :: "'r tstate list"
  waits :: "(nat \<times> nat list) list"
  resumed :: "(nat \<times> nat list \<times> 'r tstate list) list"

datatype 'r sevent =
  Spawn | Start nat | Yield nat | AwaitAll nat "nat list" | Resume nat
  | Finish nat 'r | Fail nat string | Cancel nat

fun terminal :: "'r tstate \<Rightarrow> bool" where
  "terminal (DONE r) = True"
| "terminal (FAILED e) = True"
| "terminal _ = False"

definition idle :: "'r scheduler \<Rightarrow> bool" where
  "idle s = list_all (\<lambda>t. t \<noteq> RUNNING) (tasks s)"

definition is_at :: "'r scheduler \<Rightarrow> nat \<Rightarrow> 'r tstate \<Rightarrow> bool" where
  "is_at s h t = (h < length (tasks s) \<and> tasks s ! h = t)"

definition set_task :: "nat \<Rightarrow> 'r tstate \<Rightarrow> 'r scheduler \<Rightarrow> 'r scheduler" where
  "set_task h t s = s\<lparr>tasks := (tasks s)[h := t]\<rparr>"

definition all_terminal :: "'r scheduler \<Rightarrow> nat list \<Rightarrow> bool" where
  "all_terminal s hs = list_all (\<lambda>k. k < length (tasks s) \<and> terminal (tasks s ! k)) hs"

definition aggregate :: "'r scheduler \<Rightarrow> nat list \<Rightarrow> 'r tstate list" where
  "aggregate s hs = map (\<lambda>k. tasks s ! k) hs"

definition forget :: "nat \<Rightarrow> (nat \<times> nat list) list \<Rightarrow> (nat \<times> nat list) list" where
  "forget c ws = filter (\<lambda>w. fst w \<noteq> c) ws"

fun sched_step :: "'r sevent \<Rightarrow> 'r scheduler \<Rightarrow> 'r scheduler option" where
  "sched_step Spawn s = Some (s\<lparr>tasks := tasks s @ [PENDING]\<rparr>)"
| "sched_step (Start h) s =
     (if is_at s h PENDING \<and> idle s then Some (set_task h RUNNING s) else None)"
| "sched_step (Yield h) s =
     (if is_at s h RUNNING then Some (set_task h SUSPENDED s) else None)"
| "sched_step (AwaitAll c hs) s =
     (if is_at s c RUNNING \<and> list_all (\<lambda>k. k < length (tasks s)) hs
      then Some (set_task c SUSPENDED (s\<lparr>waits := (c, hs) # waits s\<rparr>))
      else None)"
| "sched_step (Resume c) s =
     (if is_at s c SUSPENDED \<and> idle s then
        (case map_of (waits s) c of
           None \<Rightarrow> Some (set_task c RUNNING s)
         | Some hs \<Rightarrow>
             if all_terminal s hs
             then Some (set_task c RUNNING
                    (s\<lparr>waits := forget c (waits s),
                       resumed := (c, hs, aggregate s hs) # resumed s\<rparr>))
             else None)
      else None)"
| "sched_step (Finish h r) s =
     (if is_at s h RUNNING then Some (set_task h (DONE r) s) else None)"
| "sched_step (Fail h e) s =
     (if is_at s h RUNNING then Some (set_task h (FAILED e) s) else None)"
| "sched_step (Cancel h) s =
     (if is_at s h SUSPENDED
      then Some (set_task h (FAILED ''CancelledError'') (s\<lparr>waits := forget h (waits s)\<rparr>))
      else None)"

definition new_scheduler :: "'r scheduler" where
  "new_scheduler = \<lparr>tasks = [], waits = [], resumed = []\<rparr>"

text \<open>What holds in every state the scheduler reaches.\<close>

definition handed_ok :: "'r scheduler \<Rightarrow> nat \<times> nat list \<times> 'r tstate list \<Rightarrow> bool" where
  "handed_ok s e = (case e of (c, hs, rs) \<Rightarrow> all_terminal s hs \<and> rs = aggregate s hs)"

definition sched_inv :: "'r scheduler \<Rightarrow> bool" where
  "sched_inv s =
     (list_all (handed_ok s) (resumed s) \<and>
      list_all (\<lambda>w. is_at s (fst w) SUSPENDED) (waits s))"

section \<open>Hand-off across the process boundary: \<open>11_process_queue.py\<close>\<close>

text \<open>
  Modelled from the spec: a channel between isolated-memory workers serializes each item on
  \<open>put\<close> and deserializes it on \<open>get\<close>; an item that cannot be serialized fails the \<open>put\<close>
  with \<open>SerializationError\<close> and is not delivered (spec section 4.2). The serializer is
  not code of the repository: \<open>multiprocessing.Queue\<close> pickles the item. The item of the
  script is a string, and the byte format below is the one pickle protocol 4 writes for a
  string: \<open>PROTO 4\<close>, a \<open>FRAME\<close> with the length of what follows in 8 bytes, the opcode
  \<open>SHORT_BINUNICODE\<close>, \<open>BINUNICODE\<close> or \<open>BINUNICODE8\<close> with the length of the UTF-8
  text in 1, 4 or 8 bytes (least significant byte first), the UTF-8 text, \<open>MEMOIZE\<close> and
  \<open>STOP\<close>. (CPython leaves the frame out for texts of 64 KiB and more; the model always
  writes it.)

  A Python string is the list of its code points. \<open>utf8_enc\<close> encodes one code point as
  pickle does (with lone surrogates passed through), as numbers below 256.
\<close>

definition utf8_enc :: "nat \<Rightarrow> nat list" where
  "utf8_enc c =
     (if c < 128 then [c]
      else if c < 2048 then [192 + c div 64, 128 + c mod 64]
      else if c < 65536 then [224 + c div 4096, 128 + (c div 64) mod 64, 128 + c mod 64]
      else [240 + c div 262144, 128 + (c div 4096) mod 64, 128 + (c div 64) mod 64, 128 + c mod 64])"

definition utf8_encode :: "nat list \<Rightarrow> nat list" where
  "utf8_encode cps = concat (map utf8_enc cps)"

definition cont :: "nat \<Rightarrow> bool" where
  "cont b = (128 \<le> b \<and> b < 192)"

text \<open>
  The decoder reads one code point from the front of the bytes: the code point and the
  bytes that remain, or \<open>None\<close> when the bytes do not start with a well-formed encoding
  (a continuation byte is missing, the encoding is longer than needed, or the code point
  is beyond \<open>0x10FFFF\<close>).
\<close>

fun utf8_dec1 :: "nat list \<Rightarrow> (nat \<times> nat list) option" where
  "utf8_dec1 [] = None"
| "utf8_dec1 (b0 # bs) =
     (if b0 < 128 then Some (b0, bs)
      else if b0 < 192 then None
      else if b0 < 224 then
        (case bs of
           b1 # r \<Rightarrow>
             let c = (b0 - 192) * 64 + (b1 - 128)
             in if cont b1 \<and> 128 \<le> c then Some (c, r) else None
         | _ \<Rightarrow> None)
      else if b0 < 240 then
        (case bs of
           b1 # b2 # r \<Rightarrow>
             let c = (b0 - 224) * 4096 + (b1 - 128) * 64 + (b2 - 128)
             in if cont b1 \<and> cont b2 \<and> 2048 \<le> c then Some (c, r) else None
         | _ \<Rightarrow> None)
      else if b0 < 248 then
        (case bs of
           b1 # b2 # b3 # r \<Rightarrow>
             let c = (b0 - 240) * 262144 + (b1 - 128) * 4096 + (b2 - 128) * 64 + (b3 - 128)
             in if cont b1 \<and> cont b2 \<and> cont b3 \<and> 65536 \<le> c \<and> c < 1114112
                then Some (c, r) else None
         | _ \<Rightarrow> None)
      else None)"

text \<open>
  Decoding a whole text: \<open>utf8_decode n bs\<close> reads code points until the bytes are used
  up; \<open>n\<close> bounds the number of code points (each takes at least one byte, so the
  number of bytes is enough).
\<close>

fun utf8_decode :: "nat \<Rightarrow> nat list \<Rightarrow> nat list option" where
  "utf8_decode n [] = Some []"
| "utf8_decode 0 (b # bs) = None"
| "utf8_decode (Suc n) (b # bs) =
     (case utf8_dec1 (b # bs) of
        None \<Rightarrow> None
      | Some (c, r) \<Rightarrow> (case utf8_decode n r of None \<Rightarrow> None | Some cs \<Rightarrow> Some (c # cs)))"

text \<open>A number in \<open>k\<close> bytes, least significant first, and back.\<close>

fun le_bytes :: "nat \<Rightarrow> nat \<Rightarrow> nat list" where
  "le_bytes 0 n = []"
| "le_bytes (Suc k) n = n mod 256 # le_bytes k (n div 256)"

fun le_value :: "nat list \<Rightarrow> nat" where
  "le_value [] = 0"
| "le_value (b # bs) = b + 256 * le_value bs"

text \<open>The opcode with the length of the text, and the whole pickle of a string.\<close>

definition str_header :: "nat \<Rightarrow> nat list option" where
  "str_header n =
     (if n < 256 then Some (140 # le_bytes 1 n)
      else if n < 2 ^ 32 then Some (88 # le_bytes 4 n)
      else if n < 2 ^ 64 then Some (141 # le_bytes 8 n)
      else None)"

definition pickle_str :: "nat list \<Rightarrow> nat list option" where
  "pickle_str cps =
     (if list_all (\<lambda>c. c < 1114112) cps then
        (case str_header (length (utf8_encode cps)) of
           None \<Rightarrow> None
         | Some h \<Rightarrow>
             let body = h @ utf8_encode cps @ [148, 46]
             in if length body < 2 ^ 64 then Some ([128, 4, 149] @ le_bytes 8 (length body) @ body)
                else None)
      else None)"

definition read_header :: "nat list \<Rightarrow> (nat \<times> nat list) option" where
  "read_header bs =
     (case bs of
        [] \<Rightarrow> None
      | op # r \<Rightarrow>
          if op = 140 \<and> 1 \<le> length r then Some (le_value (take 1 r), drop 1 r)
          else if op = 88 \<and> 4 \<le> length r then Some (le_value (take 4 r), drop 4 r)
          else if op = 141 \<and> 8 \<le> length r then Some (le_value (take 8 r), drop 8 r)
          else None)"

definition unpickle_str :: "nat list \<Rightarrow> nat list option" where
  "unpickle_str bs =
     (if take 3 bs = [128, 4, 149] \<and> 11 \<le> length bs \<and>
         le_value (take 8 (drop 3 bs)) = length (drop 11 bs)
      then
        (case read_header (drop 11 bs) of
           None \<Rightarrow> None
         | Some (n, r) \<Rightarrow>
             if length r = n + 2 \<and> drop n r = [148, 46]
             then utf8_decode n (take n r) else None)
      else None)"

text \<open>On the wire the bytes are 8-bit words.\<close>

definition serialize :: "nat list \<Rightarrow> 8 word list option" where
  "serialize x = map_option (map of_nat) (pickle_str x)"

definition deserialize :: "8 word list \<Rightarrow> nat list option" where
  "deserialize bs = unpickle_str (map unat bs)"

text \<open>\<open>put\<close> and \<open>get\<close> of the channel between processes: the channel carries the bytes.\<close>

definition ipc_put :: "nat list \<Rightarrow> 8 word list channel \<Rightarrow> 8 word list channel \<times> 8 word list chan_result" where
  "ipc_put x c =
     (case serialize x of
        None \<Rightarrow> (c, Failed SerializationError)
      | Some b \<Rightarrow> put b c)"

definition ipc_get :: "8 word list channel \<Rightarrow> 8 word list channel \<times> nat list chan_result" where
  "ipc_get c =
     (case get c of
        (c', Got b) \<Rightarrow>
          (case deserialize b of
             None \<Rightarrow> (c', Failed SerializationError)
           | Some x \<Rightarrow> (c', Got x))
      | (c', Failed e) \<Rightarrow> (c', Failed e)
      | (c', Accepted) \<Rightarrow> (c', Accepted)
      | (c', ClosedOk) \<Rightarrow> (c', ClosedOk))"

text \<open>
  The script: the child process puts the string \<open>"\<dots> Masala chai is ready!"\<close> (a hot
  beverage sign, code point 9749, then a space and the text), the main process gets it.
\<close>

definition masala_chai :: "nat list" where
  "masala_chai = [9749, 32, 77, 97, 115, 97, 108, 97, 32, 99, 104, 97, 105, 32, 105, 115, 32,
                  114, 101, 97, 100, 121, 33]"

definition prepare_chai :: "8 word list channel \<Rightarrow> 8 word list channel \<times> 8 word list chan_result" where
  "prepare_chai queue = ipc_put masala_chai queue"

definition process_queue_main :: "nat list chan_result" where
  "process_queue_main = snd (ipc_get (fst (prepare_chai (new_channel None))))"

section \<open>Properties\<close>

subsection \<open>Schedules\<close>

lemma run_append:
  "run stp (xs @ ys) s = (case run stp xs s of None \<Rightarrow> None | Some s' \<Rightarrow> run stp ys s')"
  by (induction xs arbitrary: s) (auto split: option.splits)

subsection \<open>The guarded counter keeps its invariant\<close>

lemma cell_ok_py_global: "cell_ok py_global"
  by (simp add: cell_ok_def py_global_def)

lemma cell_ok_c_int: "cell_ok c_int"
  by (simp add: cell_ok_def c_int_def)

lemma sum_list_map_update:
  "i < length xs \<Longrightarrow> sum_list (map f (xs[i := y])) + f (xs ! i) = sum_list (map f xs) + (f y :: nat)"
proof (induction xs arbitrary: i)
  case Nil
  then show ?case by simp
next
  case (Cons x xs)
  then show ?case by (cases i) auto
qed

lemma total_done_set_worker:
  "i < length (workers s) \<Longrightarrow>
   total_done k (set_worker i w s) + bodies_done k (workers s ! i) = total_done k s + bodies_done k w"
  by (simp add: total_done_def set_worker_def sum_list_map_update)

lemma set_worker_simps:
  "counter (set_worker i w s) = counter s"
  "holder (set_worker i w s) = holder s"
  "length (workers (set_worker i w s)) = length (workers s)"
  "i < length (workers s) \<Longrightarrow> workers (set_worker i w s) ! j = (if j = i then w else workers s ! j)"
  by (simp_all add: set_worker_def)

lemma total_done_counter_upd: "total_done k (s\<lparr>counter := c\<rparr>) = total_done k s"
  by (simp add: total_done_def)
lemma total_done_holder_upd: "total_done k (s\<lparr>holder := h\<rparr>) = total_done k s"
  by (simp add: total_done_def)

text \<open>Rebuilding the invariant after worker i moved to w', with new counter c' and holder h'.\<close>
lemma guarded_invI:
  assumes i: "i < length (workers s)"
    and s': "s' = set_worker i w' (s\<lparr>counter := c', holder := h'\<rparr>)"
    and me: "worker_ok m k c' h' i w'"
    and rest: "\<And>j. j < length (workers s) \<Longrightarrow> j \<noteq> i \<Longrightarrow> worker_ok m k c' h' j (workers s ! j)"
    and hold: "h' = None \<and> at w' = ENTER \<or> h' = Some i \<and> at w' \<noteq> ENTER"
    and others_enter: "\<And>j. j < length (workers s) \<Longrightarrow> j \<noteq> i \<Longrightarrow> at (workers s ! j) = ENTER"
    and cnt: "c' = wr m (int (total_done k s + bodies_done k w' - bodies_done k (workers s ! i)))"
  shows "guarded_inv m k s'"
  unfolding guarded_inv_def
proof (intro conjI allI impI)
  fix j assume "j < length (workers s')"
  then have j: "j < length (workers s)" by (simp add: s' set_worker_simps)
  show "worker_ok m k (counter s') (holder s') j (workers s' ! j)"
  proof (cases "j = i")
    case True
    then show ?thesis using me i by (simp add: s' set_worker_simps)
  next
    case False
    then show ?thesis using rest[OF j False] i by (simp add: s' set_worker_simps)
  qed
next
  fix j assume "holder s' = Some j"
  then show "j < length (workers s')" using hold i by (auto simp add: s' set_worker_simps)
next
  fix j assume "holder s' = Some j"
  then show "at (workers s' ! j) \<noteq> ENTER" using hold i by (auto simp add: s' set_worker_simps)
next
  have "total_done k s' + bodies_done k (workers s ! i) = total_done k s + bodies_done k w'"
    using total_done_set_worker[of i "s\<lparr>counter := c', holder := h'\<rparr>" k w'] i
    by (simp add: s' total_done_def)
  then have "total_done k s' = total_done k s + bodies_done k w' - bodies_done k (workers s ! i)"
    by arith
  then show "counter s' = wr m (int (total_done k s'))"
    using cnt by (simp add: s' set_worker_simps)
qed


lemma guarded_inv_step:
  assumes c: "cell_ok m" and inv: "guarded_inv m k s" and st: "increment_step m i s = Some s'"
  shows "guarded_inv m k s'"
proof -
  from st have i: "i < length (workers s)"
    by (auto simp: increment_step_def split: if_splits)
  let ?w = "workers s ! i"
  have others: "\<And>j. j < length (workers s) \<Longrightarrow> worker_ok m k (counter s) (holder s) j (workers s ! j)"
    using inv unfolding guarded_inv_def by blast
  have cnt: "counter s = wr m (int (total_done k s))"
    using inv unfolding guarded_inv_def by blast
  have wi: "worker_ok m k (counter s) (holder s) i ?w"
    using others i by blast
  have me_le: "bodies_done k ?w \<le> total_done k s"
    unfolding total_done_def using i by (simp add: member_le_sum_list)
  show ?thesis
  proof (cases "at ?w")
    case ENTER
    with st i have free: "holder s = None" and pos: "todo ?w \<noteq> 0"
      and s': "s' = set_worker i (?w\<lparr>at := LOAD\<rparr>) (s\<lparr>counter := counter s, holder := Some i\<rparr>)"
      by (auto simp: increment_step_def Let_def split: if_splits)
    have all_enter: "\<And>j. j < length (workers s) \<Longrightarrow> at (workers s ! j) = ENTER"
      using others free by (simp add: worker_ok_def)
    show ?thesis
    proof (rule guarded_invI[OF i s'])
      show "worker_ok m k (counter s) (Some i) i (?w\<lparr>at := LOAD\<rparr>)"
        using wi pos by (simp add: worker_ok_def)
      show "worker_ok m k (counter s) (Some i) j (workers s ! j)" if "j < length (workers s)" "j \<noteq> i" for j
        using others[OF that(1)] all_enter[OF that(1)] by (simp add: worker_ok_def)
      show "Some i = None \<and> at (?w\<lparr>at := LOAD\<rparr>) = ENTER \<or> Some i = Some i \<and> at (?w\<lparr>at := LOAD\<rparr>) \<noteq> ENTER"
        by simp
      show "at (workers s ! j) = ENTER" if "j < length (workers s)" "j \<noteq> i" for j
        using all_enter that by simp
      show "counter s = wr m (int (total_done k s + bodies_done k (?w\<lparr>at := LOAD\<rparr>) - bodies_done k ?w))"
        using cnt ENTER by (simp add: bodies_done_def)
    qed
  next
    case LOAD
    from wi LOAD have h: "holder s = Some i" and pos: "0 < todo ?w" by (simp_all add: worker_ok_def)
    have same: "s\<lparr>counter := counter s, holder := Some i\<rparr> = s"
      using h by simp
    from st i LOAD have "s' = set_worker i (?w\<lparr>at := STORE (rd m (counter s))\<rparr>) s"
      by (auto simp: increment_step_def Let_def split: if_splits)
    then have s': "s' = set_worker i (?w\<lparr>at := STORE (rd m (counter s))\<rparr>) (s\<lparr>counter := counter s, holder := Some i\<rparr>)"
      by (simp only: same)
    have excl: "\<And>j. j < length (workers s) \<Longrightarrow> j \<noteq> i \<Longrightarrow> at (workers s ! j) = ENTER"
      using others h by (auto simp: worker_ok_def)
    show ?thesis
    proof (rule guarded_invI[OF i s'])
      show "worker_ok m k (counter s) (Some i) i (?w\<lparr>at := STORE (rd m (counter s))\<rparr>)"
        using wi pos by (simp add: worker_ok_def)
      show "worker_ok m k (counter s) (Some i) j (workers s ! j)" if "j < length (workers s)" "j \<noteq> i" for j
        using others[OF that(1)] excl[OF that] by (simp add: worker_ok_def)
      show "Some i = None \<and> at (?w\<lparr>at := STORE (rd m (counter s))\<rparr>) = ENTER \<or>
            Some i = Some i \<and> at (?w\<lparr>at := STORE (rd m (counter s))\<rparr>) \<noteq> ENTER"
        by simp
      show "at (workers s ! j) = ENTER" if "j < length (workers s)" "j \<noteq> i" for j
        using excl that by simp
      show "counter s = wr m (int (total_done k s + bodies_done k (?w\<lparr>at := STORE (rd m (counter s))\<rparr>) - bodies_done k ?w))"
        using cnt LOAD by (simp add: bodies_done_def)
    qed
  next
    case (STORE t)
    from wi STORE have t: "t = rd m (counter s)" and h: "holder s = Some i" and pos: "0 < todo ?w"
      and le: "todo ?w \<le> k"
      by (simp_all add: worker_ok_def)
    have same: "s\<lparr>counter := wr m (t + 1), holder := Some i\<rparr> = s\<lparr>counter := wr m (t + 1)\<rparr>"
      using h by simp
    from st i STORE have "s' = set_worker i (?w\<lparr>at := EXIT\<rparr>) (s\<lparr>counter := wr m (t + 1)\<rparr>)"
      by (auto simp: increment_step_def Let_def split: if_splits)
    then have s': "s' = set_worker i (?w\<lparr>at := EXIT\<rparr>) (s\<lparr>counter := wr m (t + 1), holder := Some i\<rparr>)"
      by (simp only: same)
    have excl: "\<And>j. j < length (workers s) \<Longrightarrow> j \<noteq> i \<Longrightarrow> at (workers s ! j) = ENTER"
      using others h by (auto simp: worker_ok_def)
    show ?thesis
    proof (rule guarded_invI[OF i s'])
      show "worker_ok m k (wr m (t + 1)) (Some i) i (?w\<lparr>at := EXIT\<rparr>)"
        using wi pos by (simp add: worker_ok_def)
      show "worker_ok m k (wr m (t + 1)) (Some i) j (workers s ! j)" if "j < length (workers s)" "j \<noteq> i" for j
        using others[OF that(1)] excl[OF that] by (simp add: worker_ok_def)
      show "Some i = None \<and> at (?w\<lparr>at := EXIT\<rparr>) = ENTER \<or> Some i = Some i \<and> at (?w\<lparr>at := EXIT\<rparr>) \<noteq> ENTER"
        by simp
      show "at (workers s ! j) = ENTER" if "j < length (workers s)" "j \<noteq> i" for j
        using excl that by simp
      have "wr m (t + 1) = wr m (int (total_done k s) + 1)"
        using c cnt t by (simp add: cell_ok_def)
      moreover have "total_done k s + bodies_done k (?w\<lparr>at := EXIT\<rparr>) - bodies_done k ?w = total_done k s + 1"
        using STORE me_le by (simp add: bodies_done_def)
      ultimately show "wr m (t + 1) = wr m (int (total_done k s + bodies_done k (?w\<lparr>at := EXIT\<rparr>) - bodies_done k ?w))"
        by (simp add: add.commute)
    qed
  next
    case EXIT
    from wi EXIT have h: "holder s = Some i" and pos: "0 < todo ?w" and le: "todo ?w \<le> k"
      by (simp_all add: worker_ok_def)
    with st i EXIT have s': "s' = set_worker i (?w\<lparr>at := ENTER, todo := todo ?w - 1\<rparr>) (s\<lparr>counter := counter s, holder := None\<rparr>)"
      by (auto simp: increment_step_def Let_def split: if_splits)
    have excl: "\<And>j. j < length (workers s) \<Longrightarrow> j \<noteq> i \<Longrightarrow> at (workers s ! j) = ENTER"
      using others h by (auto simp: worker_ok_def)
    show ?thesis
    proof (rule guarded_invI[OF i s'])
      show "worker_ok m k (counter s) None i (?w\<lparr>at := ENTER, todo := todo ?w - 1\<rparr>)"
        using le by (simp add: worker_ok_def)
      show "worker_ok m k (counter s) None j (workers s ! j)" if "j < length (workers s)" "j \<noteq> i" for j
        using others[OF that(1)] excl[OF that] by (simp add: worker_ok_def)
      show "None = None \<and> at (?w\<lparr>at := ENTER, todo := todo ?w - 1\<rparr>) = ENTER \<or>
            None = Some i \<and> at (?w\<lparr>at := ENTER, todo := todo ?w - 1\<rparr>) \<noteq> ENTER"
        by simp
      show "at (workers s ! j) = ENTER" if "j < length (workers s)" "j \<noteq> i" for j
        using excl that by simp
      have "bodies_done k (?w\<lparr>at := ENTER, todo := todo ?w - 1\<rparr>) = bodies_done k ?w"
        using EXIT pos le by (simp add: bodies_done_def)
      then show "counter s = wr m (int (total_done k s + bodies_done k (?w\<lparr>at := ENTER, todo := todo ?w - 1\<rparr>) - bodies_done k ?w))"
        using cnt by simp
    qed
  next
    case RAISED
    with st i show ?thesis by (simp add: increment_step_def Let_def)
  qed
qed

lemma guarded_inv_start: "guarded_inv m k (start (wr m 0) n k)"
  by (simp add: guarded_inv_def start_def worker_ok_def total_done_def bodies_done_def sum_list_replicate)

lemma guarded_inv_run:
  "cell_ok m \<Longrightarrow> guarded_inv m k s \<Longrightarrow> run (increment_step m) sched s = Some s' \<Longrightarrow> guarded_inv m k s'"
proof (induction sched arbitrary: s)
  case Nil
  then show ?case by simp
next
  case (Cons i sched)
  then show ?case by (auto split: option.splits dest: guarded_inv_step)
qed

lemma increment_step_length:
  "increment_step m i s = Some s' \<Longrightarrow> length (workers s') = length (workers s)"
  by (auto simp: increment_step_def Let_def set_worker_def split: if_splits pc.splits)

lemma run_increment_length:
  "run (increment_step m) sched s = Some s' \<Longrightarrow> length (workers s') = length (workers s)"
proof (induction sched arbitrary: s)
  case Nil
  then show ?case by simp
next
  case (Cons i sched)
  then show ?case by (auto split: option.splits dest: increment_step_length)
qed

lemma sum_list_const: "(\<And>x. x \<in> set xs \<Longrightarrow> f x = (c::nat)) \<Longrightarrow> sum_list (map f xs) = length xs * c"
  by (induction xs) auto

lemma total_done_joined: "all_joined s \<Longrightarrow> total_done k s = length (workers s) * k"
  unfolding total_done_def
  by (rule sum_list_const) (simp add: all_joined_def list_all_iff returned_def bodies_done_def)

lemma start_simps:
  "length (workers (start c n k)) = n" "counter (start c n k) = c" "holder (start c n k) = None"
  by (simp_all add: start_def)

lemma guarded_final_count:
  assumes "cell_ok m" "run (increment_step m) sched (start (wr m 0) n k) = Some s" "all_joined s"
  shows "counter s = wr m (int (n * k))"
proof -
  have inv: "guarded_inv m k s"
    using guarded_inv_run[OF assms(1) guarded_inv_start assms(2)] .
  have "length (workers s) = n"
    using run_increment_length[OF assms(2)] by (simp add: start_simps)
  then have "total_done k s = n * k"
    using total_done_joined[OF assms(3)] by simp
  then show ?thesis using inv by (simp add: guarded_inv_def)
qed

text \<open>Progress: while some worker has not returned, some worker can step.\<close>

lemma guarded_inv_worker:
  "guarded_inv m k s \<Longrightarrow> j < length (workers s) \<Longrightarrow> worker_ok m k (counter s) (holder s) j (workers s ! j)"
  unfolding guarded_inv_def by blast

lemma guarded_inv_holder:
  "guarded_inv m k s \<Longrightarrow> holder s = Some i \<Longrightarrow> i < length (workers s) \<and> at (workers s ! i) \<noteq> ENTER"
  unfolding guarded_inv_def by blast

lemma guarded_inv_counter: "guarded_inv m k s \<Longrightarrow> counter s = wr m (int (total_done k s))"
  unfolding guarded_inv_def by blast

lemma guarded_progress:
  assumes inv: "guarded_inv m k s" and nj: "\<not> all_joined s"
  shows "\<exists>i s'. increment_step m i s = Some s'"
proof (cases "holder s")
  case None
  have enter: "at (workers s ! j) = ENTER" if "j < length (workers s)" for j
    using guarded_inv_worker[OF inv that] None by (simp add: worker_ok_def)
  from nj obtain j where j: "j < length (workers s)" and nr: "\<not> returned (workers s ! j)"
    by (auto simp: all_joined_def list_all_length)
  then have "todo (workers s ! j) \<noteq> 0" using enter[OF j] by (simp add: returned_def)
  then have "increment_step m j s \<noteq> None"
    using j enter[OF j] None by (simp add: increment_step_def Let_def)
  then show ?thesis by blast
next
  case (Some i)
  then have i: "i < length (workers s)" and ne: "at (workers s ! i) \<noteq> ENTER"
    using guarded_inv_holder[OF inv Some] by simp_all
  have "at (workers s ! i) \<noteq> RAISED"
    using guarded_inv_worker[OF inv i] by (simp add: worker_ok_def)
  then have "increment_step m i s \<noteq> None"
    using i ne Some by (cases "at (workers s ! i)") (simp_all add: increment_step_def Let_def)
  then show ?thesis by blast
qed

lemma rank_set_worker:
  "i < length (workers s) \<Longrightarrow>
   rank (set_worker i w s) + steps_left (workers s ! i) = rank s + steps_left w"
  by (simp add: rank_def set_worker_def sum_list_map_update)

lemma rank_upd: "rank (s\<lparr>counter := c\<rparr>) = rank s" "rank (s\<lparr>holder := h\<rparr>) = rank s"
  by (simp_all add: rank_def)

lemma guarded_step_rank:
  assumes inv: "guarded_inv m k s" and st: "increment_step m i s = Some s'"
  shows "rank s' < rank s"
proof -
  from st have i: "i < length (workers s)"
    by (auto simp: increment_step_def split: if_splits)
  let ?w = "workers s ! i"
  have wi: "worker_ok m k (counter s) (holder s) i ?w"
    using guarded_inv_worker[OF inv i] .
  have le: "steps_left ?w \<le> rank s"
    unfolding rank_def using i by (simp add: member_le_sum_list)
  show ?thesis
  proof (cases "at ?w")
    case ENTER
    with st i have pos: "todo ?w \<noteq> 0"
      and s': "s' = set_worker i (?w\<lparr>at := LOAD\<rparr>) (s\<lparr>holder := Some i\<rparr>)"
      by (auto simp: increment_step_def Let_def split: if_splits)
    show ?thesis
      using rank_set_worker[of i "s\<lparr>holder := Some i\<rparr>" "?w\<lparr>at := LOAD\<rparr>"] i pos ENTER
      by (simp add: s' rank_upd steps_left_def)
  next
    case LOAD
    from wi LOAD have pos: "0 < todo ?w" by (simp add: worker_ok_def)
    from st i LOAD have s': "s' = set_worker i (?w\<lparr>at := STORE (rd m (counter s))\<rparr>) s"
      by (auto simp: increment_step_def Let_def split: if_splits)
    show ?thesis
      using rank_set_worker[of i s "?w\<lparr>at := STORE (rd m (counter s))\<rparr>"] i pos LOAD
      by (simp add: s' steps_left_def)
  next
    case (STORE t)
    from wi STORE have pos: "0 < todo ?w" by (simp add: worker_ok_def)
    from st i STORE have s': "s' = set_worker i (?w\<lparr>at := EXIT\<rparr>) (s\<lparr>counter := wr m (t + 1)\<rparr>)"
      by (auto simp: increment_step_def Let_def split: if_splits)
    show ?thesis
      using rank_set_worker[of i "s\<lparr>counter := wr m (t + 1)\<rparr>" "?w\<lparr>at := EXIT\<rparr>"] i pos STORE
      by (simp add: s' rank_upd steps_left_def)
  next
    case EXIT
    from wi EXIT have pos: "0 < todo ?w" and h: "holder s = Some i" by (simp_all add: worker_ok_def)
    from st i EXIT h have s': "s' = set_worker i (?w\<lparr>at := ENTER, todo := todo ?w - 1\<rparr>) (s\<lparr>holder := None\<rparr>)"
      by (auto simp: increment_step_def Let_def split: if_splits)
    show ?thesis
      using rank_set_worker[of i "s\<lparr>holder := None\<rparr>" "?w\<lparr>at := ENTER, todo := todo ?w - 1\<rparr>"] i pos EXIT
      by (simp add: s' rank_upd steps_left_def)
  next
    case RAISED
    with st i show ?thesis by (simp add: increment_step_def Let_def)
  qed
qed

text \<open>So every reachable state can be driven to the end: the program has no deadlock.\<close>

lemma guarded_can_finish:
  assumes c: "cell_ok m"
  shows "guarded_inv m k s \<Longrightarrow> \<exists>sched s'. run (increment_step m) sched s = Some s' \<and> all_joined s'"
proof (induction "rank s" arbitrary: s rule: less_induct)
  case less
  show ?case
  proof (cases "all_joined s")
    case True
    then have "run (increment_step m) [] s = Some s \<and> all_joined s" by simp
    then show ?thesis by blast
  next
    case False
    from guarded_progress[OF less.prems False] obtain i s1 where st: "increment_step m i s = Some s1"
      by blast
    have "rank s1 < rank s" using guarded_step_rank[OF less.prems st] .
    moreover have "guarded_inv m k s1" using guarded_inv_step[OF c less.prems st] .
    ultimately obtain sched s' where "run (increment_step m) sched s1 = Some s'" "all_joined s'"
      using less.hyps by blast
    then have "run (increment_step m) (i # sched) s = Some s' \<and> all_joined s'"
      using st by simp
    then show ?thesis by blast
  qed
qed

text \<open>One whole pass through the block by worker i, nobody else stepping in between.\<close>

lemma critical_section_solo:
  assumes "i < length (workers s)" "at (workers s ! i) = ENTER" "todo (workers s ! i) \<noteq> 0"
    "holder s = None"
  shows "run (increment_step m) [i, i, i, i] s =
     Some (s\<lparr>counter := wr m (rd m (counter s) + 1), holder := None,
            workers := (workers s)[i := (workers s ! i)\<lparr>at := ENTER, todo := todo (workers s ! i) - 1\<rparr>]\<rparr>)"
  using assms by (simp add: increment_step_def set_worker_def Let_def)

lemma guarded_others_blocked:
  assumes inv: "guarded_inv m k s" and h: "holder s = Some i" and ne: "j \<noteq> i"
  shows "increment_step m j s = None"
proof (cases "j < length (workers s)")
  case True
  have "at (workers s ! j) = ENTER"
    using guarded_inv_worker[OF inv True] h ne by (simp add: worker_ok_def)
  then show ?thesis using h by (simp add: increment_step_def Let_def)
next
  case False
  then show ?thesis by (simp add: increment_step_def)
qed

lemma guarded_step_counter:
  assumes inv: "guarded_inv m k s" and st: "increment_step m i s = Some s'"
  shows "counter s' = counter s \<or>
         (holder s = Some i \<and> at (workers s ! i) = STORE (rd m (counter s)) \<and>
          counter s' = wr m (rd m (counter s) + 1))"
proof -
  from st have i: "i < length (workers s)"
    by (auto simp: increment_step_def split: if_splits)
  have wi: "worker_ok m k (counter s) (holder s) i (workers s ! i)"
    using guarded_inv_worker[OF inv i] .
  show ?thesis
  proof (cases "at (workers s ! i)")
    case (STORE t)
    with wi have "t = rd m (counter s)" "holder s = Some i" by (simp_all add: worker_ok_def)
    with st i STORE show ?thesis
      by (auto simp: increment_step_def Let_def set_worker_def)
  qed (use st i in \<open>auto simp: increment_step_def Let_def set_worker_def split: if_splits\<close>)
qed

lemma bodies_done_le:
  "worker_ok m k c h i w \<Longrightarrow> bodies_done k w \<le> k"
  by (auto simp: worker_ok_def bodies_done_def)

lemma sum_list_bound: "(\<And>i. i < length xs \<Longrightarrow> f (xs ! i) \<le> (c::nat)) \<Longrightarrow> sum_list (map f xs) \<le> length xs * c"
proof (induction xs)
  case Nil
  then show ?case by simp
next
  case (Cons x xs)
  have "f x \<le> c" using Cons.prems[of 0] by simp
  moreover have "sum_list (map f xs) \<le> length xs * c"
    using Cons.prems[of "Suc i" for i] by (intro Cons.IH) simp
  ultimately show ?case by simp
qed

lemma total_done_le: "guarded_inv m k s \<Longrightarrow> total_done k s \<le> length (workers s) * k"
  unfolding total_done_def
  by (rule sum_list_bound) (rule bodies_done_le, erule (1) guarded_inv_worker)

text \<open>
  The control flow of a step (who holds the lock, where each worker stands) depends on the
  counter only through the value a load reads. Two programs over different cells that read
  the same value step alike.
\<close>

lemma increment_step_sim:
  assumes "workers sp = workers sc" "holder sp = holder sc"
    and "rd mp (counter sp) = rd mc (counter sc)"
    and "increment_step mc i sc = Some sc'"
  shows "\<exists>sp'. increment_step mp i sp = Some sp' \<and> workers sp' = workers sc' \<and> holder sp' = holder sc'"
  using assms
  by (auto simp: increment_step_def Let_def set_worker_def split: if_splits pc.splits)

lemma sint_word32_of_nat:
  assumes "n < 2 ^ 31"
  shows "sint (word_of_int (int n) :: 32 word) = int n"
proof -
  have "int n < 2 ^ 31"
    using assms by (metis of_nat_less_iff of_nat_numeral of_nat_power)
  moreover have "- (2 ^ 31) \<le> int n"
    by (rule order_trans[of _ 0]) simp_all
  ultimately have "signed_take_bit 31 (int n) = int n"
    by (rule signed_take_bit_int_eq_self[rotated])
  then show ?thesis
    by (simp only: signed_of_int) simp
qed

lemma sint_c_int_exact:
  assumes inv: "guarded_inv c_int k s" and b: "length (workers s) * k < 2 ^ 31"
  shows "sint (counter s) = int (total_done k s)"
proof -
  have "total_done k s < 2 ^ 31"
    using total_done_le[OF inv] b by linarith
  moreover have "counter s = word_of_int (int (total_done k s))"
    using guarded_inv_counter[OF inv] by (simp add: c_int_def)
  ultimately show ?thesis
    by (simp only: sint_word32_of_nat)
qed

lemma total_done_cong: "workers sp = workers sc \<Longrightarrow> total_done k sp = total_done k sc"
  by (simp add: total_done_def)

lemma c_int_reads_exact:
  assumes "guarded_inv c_int k sc" "guarded_inv py_global k sp" "workers sp = workers sc"
    "length (workers sc) * k < 2 ^ 31"
  shows "counter sp = sint (counter sc)"
  using sint_c_int_exact[OF assms(1,4)] guarded_inv_counter[OF assms(2)] total_done_cong[OF assms(3)]
  by (simp add: py_global_def)

lemma c_int_run_sim:
  assumes "run (increment_step c_int) sched sc = Some sc'"
    and "guarded_inv c_int k sc" "guarded_inv py_global k sp"
    and "workers sp = workers sc" "holder sp = holder sc"
    and "length (workers sc) * k < 2 ^ 31"
  shows "\<exists>sp'. run (increment_step py_global) sched sp = Some sp' \<and>
          workers sp' = workers sc' \<and> holder sp' = holder sc'"
  using assms
proof (induction sched arbitrary: sc sp)
  case Nil
  then show ?case by simp
next
  case (Cons i sched)
  from Cons.prems(1) obtain sc1 where st: "increment_step c_int i sc = Some sc1"
    and rest: "run (increment_step c_int) sched sc1 = Some sc'"
    by (auto split: option.splits)
  have rdeq: "rd py_global (counter sp) = rd c_int (counter sc)"
    using c_int_reads_exact[OF Cons.prems(2,3,4,6)] by (simp add: py_global_def c_int_def)
  from increment_step_sim[OF Cons.prems(4,5) rdeq st]
  obtain sp1 where stp: "increment_step py_global i sp = Some sp1"
    and w1: "workers sp1 = workers sc1" and h1: "holder sp1 = holder sc1"
    by blast
  have i1: "guarded_inv c_int k sc1" using guarded_inv_step[OF cell_ok_c_int Cons.prems(2) st] .
  have i2: "guarded_inv py_global k sp1" using guarded_inv_step[OF cell_ok_py_global Cons.prems(3) stp] .
  have l1: "length (workers sc1) * k < 2 ^ 31"
    using increment_step_length[OF st] Cons.prems(6) by simp
  from Cons.IH[OF rest i1 i2 w1 h1 l1] stp show ?case by simp
qed

lemma replicate_four: "replicate 4 x = [x, x, x, x]"
  by (simp add: numeral_eq_Suc[of "num.Bit0 (num.Bit0 num.One)"] numeral_eq_Suc[of "num.Bit1 num.One"]  numeral_eq_Suc[of "num.Bit0 num.One"])

subsection \<open>The guarded counter never loses an update\<close>

lemma wr_zero: "wr py_global 0 = 0" "wr c_int 0 = 0"
  by (simp_all add: py_global_def c_int_def)

text \<open>
  Claim C1. In every run of \<open>n\<close> workers that each perform \<open>k\<close> increments under the lock,
  whatever the interleaving of their steps, the counter is \<open>n * k\<close> once all workers have
  returned: no update is lost. For the thread script (10 threads, 100000 increments, a
  Python integer) the final value is 1000000; for the process script (4 processes, 100000
  increments of the shared C \<open>int\<close>) it is 400000. Both scripts have a run in which all
  workers return.
\<close>

theorem guarded_increments_never_lost:
  "(\<forall>sched s. run (increment_step py_global) sched (start 0 n k) = Some s \<and> all_joined s
       \<longrightarrow> counter s = int (n * k)) \<and>
   (\<forall>sched s. run (increment_step c_int) sched (start 0 n k) = Some s \<and> all_joined s
       \<longrightarrow> counter s = word_of_int (int (n * k))) \<and>
   (\<forall>sched s. run (increment_step py_global) sched thread_lock_main = Some s \<and> all_joined s
       \<longrightarrow> counter s = 1000000) \<and>
   (\<forall>sched s. run (increment_step c_int) sched process_value_main = Some s \<and> all_joined s
       \<longrightarrow> sint (counter s) = 400000) \<and>
   (\<exists>sched s. run (increment_step py_global) sched thread_lock_main = Some s \<and> all_joined s) \<and>
   (\<exists>sched s. run (increment_step c_int) sched process_value_main = Some s \<and> all_joined s)"
proof -
  have py: "counter s = int (n' * k')"
    if "run (increment_step py_global) sched (start 0 n' k') = Some s" "all_joined s" for sched s n' k'
    using guarded_final_count[OF cell_ok_py_global, of sched n' k' s] that
    by (simp add: py_global_def)
  have c: "counter s = word_of_int (int (n' * k'))"
    if "run (increment_step c_int) sched (start 0 n' k') = Some s" "all_joined s" for sched s n' k'
    using guarded_final_count[OF cell_ok_c_int, of sched n' k' s] that
    by (simp add: c_int_def)
  have t: "counter s = 1000000"
    if "run (increment_step py_global) sched thread_lock_main = Some s" "all_joined s" for sched s
    using py[of sched 10 100000 s] that by (simp add: thread_lock_main_def)
  have p: "sint (counter s) = 400000"
    if "run (increment_step c_int) sched process_value_main = Some s" "all_joined s" for sched s
    using c[of sched 4 100000 s] that by (simp add: process_value_main_def)
  have et: "\<exists>sched s. run (increment_step py_global) sched thread_lock_main = Some s \<and> all_joined s"
    using guarded_can_finish[OF cell_ok_py_global guarded_inv_start[of py_global 100000 10]]
    by (simp add: thread_lock_main_def wr_zero)
  have ep: "\<exists>sched s. run (increment_step c_int) sched process_value_main = Some s \<and> all_joined s"
    using guarded_can_finish[OF cell_ok_c_int guarded_inv_start[of c_int 100000 4]]
    by (simp add: process_value_main_def wr_zero)
  show ?thesis using py c t p et ep by blast
qed

theorem guarded_increments_never_lost_witness:
  "run (increment_step py_global) [0, 0, 0, 0, 1, 1, 1, 1, 0, 0, 0, 0, 1, 1, 1, 1] (start 0 2 2)
     = Some \<lparr>counter = 4, holder = None, workers = [\<lparr>todo = 0, at = ENTER\<rparr>, \<lparr>todo = 0, at = ENTER\<rparr>]\<rparr> \<and>
   all_joined \<lparr>counter = 4 :: int, holder = None, workers = [\<lparr>todo = 0, at = ENTER\<rparr>, \<lparr>todo = 0, at = ENTER\<rparr>]\<rparr> \<and>
   counter \<lparr>counter = 4 :: int, holder = None, workers = [\<lparr>todo = 0, at = ENTER\<rparr>, \<lparr>todo = 0, at = ENTER\<rparr>]\<rparr> = int (2 * 2)"
proof -
  let ?s = "\<lparr>counter = 4 :: int, holder = None, workers = [\<lparr>todo = 0, at = ENTER\<rparr>, \<lparr>todo = 0, at = ENTER\<rparr>]\<rparr>"
  have r: "run (increment_step py_global) [0, 0, 0, 0, 1, 1, 1, 1, 0, 0, 0, 0, 1, 1, 1, 1] (start 0 2 2) = Some ?s"
    by code_simp
  have j: "all_joined ?s"
    by code_simp
  have "counter ?s = int (2 * 2)"
    using guarded_increments_never_lost[of 2 2] r j by blast
  with r j show ?thesis by blast
qed

subsection \<open>The counter counts the completed critical sections\<close>

text \<open>
  Claim C9. At every point of every run of the thread script the counter equals the number
  of executions of the guarded body \<open>counter += 1\<close> completed so far. A step never
  decreases the counter, and a step that changes it is the store of the worker that holds
  the lock, inside the block, and adds exactly 1. While a worker is inside the block no
  other worker can step, so one execution of the block, from its acquire to its release,
  takes the counter from \<open>c\<close> to \<open>c + 1\<close>.
\<close>

theorem counter_counts_critical_sections:
  assumes "run (increment_step py_global) sched (start 0 n k) = Some s"
  shows "counter s = int (total_done k s) \<and>
     (\<forall>i s'. increment_step py_global i s = Some s' \<longrightarrow>
        counter s \<le> counter s' \<and>
        (counter s' \<noteq> counter s \<longrightarrow>
           holder s = Some i \<and> at (workers s ! i) = STORE (counter s) \<and> counter s' = counter s + 1)) \<and>
     (\<forall>i j. holder s = Some i \<and> j \<noteq> i \<longrightarrow> increment_step py_global j s = None) \<and>
     (\<forall>i s1. at (workers s ! i) = ENTER \<and> increment_step py_global i s = Some s1 \<longrightarrow>
        (\<exists>s4. run (increment_step py_global) [i, i, i] s1 = Some s4 \<and>
              counter s4 = counter s + 1 \<and> holder s4 = None \<and> at (workers s4 ! i) = ENTER))"
proof -
  have inv: "guarded_inv py_global k s"
    using guarded_inv_run[OF cell_ok_py_global guarded_inv_start[of py_global k n]] assms
    by (simp add: py_global_def)
  have a: "counter s = int (total_done k s)"
    using guarded_inv_counter[OF inv] by (simp add: py_global_def)
  have b: "counter s \<le> counter s' \<and>
        (counter s' \<noteq> counter s \<longrightarrow>
           holder s = Some i \<and> at (workers s ! i) = STORE (counter s) \<and> counter s' = counter s + 1)"
    if "increment_step py_global i s = Some s'" for i s'
    using guarded_step_counter[OF inv that] by (auto simp: py_global_def)
  have c: "increment_step py_global j s = None" if "holder s = Some i" "j \<noteq> i" for i j
    using guarded_others_blocked[OF inv that] .
  have d: "\<exists>s4. run (increment_step py_global) [i, i, i] s1 = Some s4 \<and>
              counter s4 = counter s + 1 \<and> holder s4 = None \<and> at (workers s4 ! i) = ENTER"
    if e: "at (workers s ! i) = ENTER" and st: "increment_step py_global i s = Some s1" for i s1
  proof -
    from st e have i: "i < length (workers s)" and t: "todo (workers s ! i) \<noteq> 0" and h: "holder s = None"
      by (auto simp: increment_step_def Let_def split: if_splits)
    from critical_section_solo[OF i e t h, of py_global] st
    have "run (increment_step py_global) [i, i, i] s1 =
       Some (s\<lparr>counter := wr py_global (rd py_global (counter s) + 1), holder := None,
            workers := (workers s)[i := (workers s ! i)\<lparr>at := ENTER, todo := todo (workers s ! i) - 1\<rparr>]\<rparr>)"
      by simp
    then show ?thesis using i e by (simp add: py_global_def)
  qed
  show ?thesis using a b c d by blast
qed


theorem counter_counts_critical_sections_witness:
  "run (increment_step py_global) [0, 0] (start 0 2 2)
     = Some \<lparr>counter = 0, holder = Some 0, workers = [\<lparr>todo = 2, at = STORE 0\<rparr>, \<lparr>todo = 2, at = ENTER\<rparr>]\<rparr> \<and>
   increment_step py_global 0
       \<lparr>counter = 0, holder = Some 0, workers = [\<lparr>todo = 2, at = STORE 0\<rparr>, \<lparr>todo = 2, at = ENTER\<rparr>]\<rparr>
     = Some \<lparr>counter = 1, holder = Some 0, workers = [\<lparr>todo = 2, at = EXIT\<rparr>, \<lparr>todo = 2, at = ENTER\<rparr>]\<rparr> \<and>
   counter \<lparr>counter = 0 :: int, holder = Some 0, workers = [\<lparr>todo = 2, at = STORE 0\<rparr>, \<lparr>todo = 2, at = ENTER\<rparr>]\<rparr>
     = int (total_done 2 \<lparr>counter = 0 :: int, holder = Some 0, workers = [\<lparr>todo = 2, at = STORE 0\<rparr>, \<lparr>todo = 2, at = ENTER\<rparr>]\<rparr>) \<and>
   increment_step py_global 1
       \<lparr>counter = 0, holder = Some 0, workers = [\<lparr>todo = 2, at = STORE 0\<rparr>, \<lparr>todo = 2, at = ENTER\<rparr>]\<rparr>
     = None"
proof -
  let ?s = "\<lparr>counter = 0 :: int, holder = Some 0, workers = [\<lparr>todo = 2, at = STORE 0\<rparr>, \<lparr>todo = 2, at = ENTER\<rparr>]\<rparr>"
  have r: "run (increment_step py_global) [0, 0] (start 0 2 2) = Some ?s"
    by code_simp
  have st: "increment_step py_global 0 ?s
     = Some \<lparr>counter = 1, holder = Some 0, workers = [\<lparr>todo = 2, at = EXIT\<rparr>, \<lparr>todo = 2, at = ENTER\<rparr>]\<rparr>"
    by code_simp
  have h: "holder ?s = Some 0 \<and> (1::nat) \<noteq> 0" by simp
  from counter_counts_critical_sections[OF r] h
  have "counter ?s = int (total_done 2 ?s) \<and> increment_step py_global 1 ?s = None"
    by blast
  with r st show ?thesis by blast
qed

subsection \<open>The shared C \<open>int\<close> does not wrap\<close>

text \<open>
  Claim C10. The shared counter of the process script is a signed 32-bit cell: an increment
  is addition modulo \<open>2 ^ 32\<close>, and the largest value wraps to the smallest. In every run
  of the script (4 processes, 100000 guarded increments each, from 0) the signed reading of
  the cell is at every point the exact number of increments made so far, at most 400000,
  which is below \<open>2 ^ 31\<close>; the same schedule on unbounded integers gives the same
  number, and once all processes have returned the cell reads 400000.
\<close>

theorem shared_int_never_wraps:
  "(\<forall>c. wr c_int (rd c_int c + 1) = c + 1) \<and>
   sint (wr c_int (rd c_int 2147483647 + 1)) = - 2147483648 \<and>
   (\<forall>sched s. run (increment_step c_int) sched process_value_main = Some s \<longrightarrow>
      sint (counter s) = int (total_done 100000 s) \<and> total_done 100000 s \<le> 400000 \<and>
      (400000 :: int) < 2 ^ 31 \<and>
      (\<exists>sp. run (increment_step py_global) sched (start 0 4 100000) = Some sp \<and>
            workers sp = workers s \<and> counter sp = sint (counter s)) \<and>
      (all_joined s \<longrightarrow> sint (counter s) = 400000))"
proof -
  have a: "wr c_int (rd c_int c + 1) = c + 1" for c
    by (simp add: c_int_def)
  have b: "sint (wr c_int (rd c_int 2147483647 + 1)) = - 2147483648"
    by (simp add: c_int_def)
  have c: "sint (counter s) = int (total_done 100000 s) \<and> total_done 100000 s \<le> 400000 \<and>
      (400000 :: int) < 2 ^ 31 \<and>
      (\<exists>sp. run (increment_step py_global) sched (start 0 4 100000) = Some sp \<and>
            workers sp = workers s \<and> counter sp = sint (counter s)) \<and>
      (all_joined s \<longrightarrow> sint (counter s) = 400000)"
    if r: "run (increment_step c_int) sched process_value_main = Some s" for sched s
  proof -
    have r': "run (increment_step c_int) sched (start (wr c_int 0) 4 100000) = Some s"
      using r by (simp add: process_value_main_def c_int_def)
    have inv: "guarded_inv c_int 100000 s"
      using guarded_inv_run[OF cell_ok_c_int guarded_inv_start r'] .
    have len: "length (workers s) = 4"
      using run_increment_length[OF r'] by (simp add: start_simps)
    have bnd: "length (workers s) * 100000 < (2::nat) ^ 31"
      by (simp add: len)
    have e1: "sint (counter s) = int (total_done 100000 s)"
      using sint_c_int_exact[OF inv bnd] .
    have e2: "total_done 100000 s \<le> 400000"
      using total_done_le[OF inv] by (simp add: len)
    have i0c: "guarded_inv c_int 100000 (start (wr c_int 0) 4 100000)"
      by (rule guarded_inv_start)
    have i0p: "guarded_inv py_global 100000 (start (wr py_global 0) 4 100000)"
      by (rule guarded_inv_start)
    have z: "start (wr py_global 0) 4 100000 = start (0::int) 4 100000"
      by (simp add: py_global_def)
    have "\<exists>sp. run (increment_step py_global) sched (start (wr py_global 0) 4 100000) = Some sp \<and>
          workers sp = workers s \<and> holder sp = holder s"
      by (rule c_int_run_sim[OF r' i0c i0p]) (simp_all add: start_def)
    then obtain sp where rp: "run (increment_step py_global) sched (start 0 4 100000) = Some sp"
      and wp: "workers sp = workers s"
      unfolding z by blast
    have ip: "guarded_inv py_global 100000 sp"
      using guarded_inv_run[OF cell_ok_py_global i0p] rp unfolding z by blast
    have e3: "counter sp = sint (counter s)"
      using c_int_reads_exact[OF inv ip wp bnd] .
    have e4: "sint (counter s) = 400000" if "all_joined s"
      using total_done_joined[OF that, of 100000] e1 by (simp add: len)
    show ?thesis using e1 e2 rp wp e3 e4 by auto
  qed
  show ?thesis using a b c by blast
qed

theorem shared_int_never_wraps_witness:
  "run (increment_step c_int) [0, 0, 0, 0] process_value_main
     = Some \<lparr>counter = 1, holder = None,
             workers = [\<lparr>todo = 99999, at = ENTER\<rparr>, \<lparr>todo = 100000, at = ENTER\<rparr>,
                        \<lparr>todo = 100000, at = ENTER\<rparr>, \<lparr>todo = 100000, at = ENTER\<rparr>]\<rparr> \<and>
   sint (counter \<lparr>counter = 1 :: 32 word, holder = None,
             workers = [\<lparr>todo = 99999, at = ENTER\<rparr>, \<lparr>todo = 100000, at = ENTER\<rparr>,
                        \<lparr>todo = 100000, at = ENTER\<rparr>, \<lparr>todo = 100000, at = ENTER\<rparr>]\<rparr>)
     = int (total_done 100000 \<lparr>counter = 1 :: 32 word, holder = None,
             workers = [\<lparr>todo = 99999, at = ENTER\<rparr>, \<lparr>todo = 100000, at = ENTER\<rparr>,
                        \<lparr>todo = 100000, at = ENTER\<rparr>, \<lparr>todo = 100000, at = ENTER\<rparr>]\<rparr>)"
proof -
  let ?s = "\<lparr>counter = 1 :: 32 word, holder = None,
             workers = [\<lparr>todo = 99999, at = ENTER\<rparr>, \<lparr>todo = 100000, at = ENTER\<rparr>,
                        \<lparr>todo = 100000, at = ENTER\<rparr>, \<lparr>todo = 100000, at = ENTER\<rparr>]\<rparr>"
  have r: "run (increment_step c_int) [0, 0, 0, 0] process_value_main = Some ?s"
    by (simp add: process_value_main_def start_def replicate_four increment_step_def
        set_worker_def c_int_def Let_def)
  note all_runs = shared_int_never_wraps[THEN conjunct2, THEN conjunct2, rule_format, OF r]
  have "sint (counter ?s) = int (total_done 100000 ?s)"
    by (rule all_runs[THEN conjunct1])
  with r show ?thesis by (rule conjI)
qed

subsection \<open>The unguarded counter\<close>

text \<open>One worker alone runs its remaining iterations and adds one per iteration.\<close>

lemma restock_solo:
  "i < length (workers s) \<Longrightarrow> workers s ! i = \<lparr>todo = j, at = ENTER\<rparr> \<Longrightarrow>
   run restock_step (replicate (3 * j) i) s =
     Some (s\<lparr>counter := counter s + int j, workers := (workers s)[i := \<lparr>todo = 0, at = ENTER\<rparr>]\<rparr>)"
proof (induction j arbitrary: s)
  case 0
  have "(workers s)[i := workers s ! i] = workers s" by simp
  then have "(workers s)[i := \<lparr>todo = 0, at = ENTER\<rparr>] = workers s"
    using 0 by simp
  then show ?case by simp
next
  case (Suc j)
  let ?s3 = "s\<lparr>counter := counter s + 1, workers := (workers s)[i := \<lparr>todo = j, at = ENTER\<rparr>]\<rparr>"
  have three: "run restock_step [i, i, i] s = Some ?s3"
    using Suc.prems by (simp add: restock_step_def set_worker_def Let_def)
  have "3 * Suc j = Suc (Suc (Suc (3 * j)))" by simp
  then have rep: "replicate (3 * Suc j) i = [i, i, i] @ replicate (3 * j) i"
    by (simp only: replicate_Suc append_Cons append_Nil)
  have "run restock_step (replicate (3 * j) i) ?s3 =
     Some (?s3\<lparr>counter := counter ?s3 + int j, workers := (workers ?s3)[i := \<lparr>todo = 0, at = ENTER\<rparr>]\<rparr>)"
    using Suc.prems by (intro Suc.IH) simp_all
  then show ?case
    unfolding rep run_append three by (simp add: add.assoc)
qed

text \<open>Running the workers one after the other from a state in which all are at the loop head.\<close>

lemma restock_sequential:
  assumes "\<And>i. i < length (workers s) \<Longrightarrow> at (workers s ! i) = ENTER"
  shows "m \<le> length (workers s) \<Longrightarrow>
     \<exists>sched s'. run restock_step sched s = Some s' \<and>
        counter s' = counter s + int (sum_list (map todo (take m (workers s)))) \<and>
        workers s' = replicate m \<lparr>todo = 0, at = ENTER\<rparr> @ drop m (workers s)"
proof (induction m)
  case 0
  have "run restock_step [] s = Some s" by simp
  then show ?case by fastforce
next
  case (Suc m)
  then obtain sched s1 where r1: "run restock_step sched s = Some s1"
    and c1: "counter s1 = counter s + int (sum_list (map todo (take m (workers s))))"
    and w1: "workers s1 = replicate m \<lparr>todo = 0, at = ENTER\<rparr> @ drop m (workers s)"
    by auto
  from Suc.prems have m: "m < length (workers s)" by simp
  have len1: "m < length (workers s1)" using m by (simp add: w1)
  have nth1: "workers s1 ! m = workers s ! m"
    using m by (simp add: w1 nth_append)
  have "at (workers s ! m) = ENTER" using assms[OF m] .
  then have wm: "workers s1 ! m = \<lparr>todo = todo (workers s ! m), at = ENTER\<rparr>"
    unfolding nth1 by (cases "workers s ! m") simp
  let ?s2 = "s1\<lparr>counter := counter s1 + int (todo (workers s ! m)),
                workers := (workers s1)[m := \<lparr>todo = 0, at = ENTER\<rparr>]\<rparr>"
  have r2: "run restock_step (replicate (3 * todo (workers s ! m)) m) s1 = Some ?s2"
    using restock_solo[OF len1 wm] .
  have r: "run restock_step (sched @ replicate (3 * todo (workers s ! m)) m) s = Some ?s2"
    by (simp add: run_append r1 r2)
  have c2: "counter ?s2 = counter s + int (sum_list (map todo (take (Suc m) (workers s))))"
    using m by (simp add: c1 take_Suc_conv_app_nth)
  have "drop m (workers s) = workers s ! m # drop (Suc m) (workers s)"
    using m by (simp add: Cons_nth_drop_Suc)
  then have w2: "workers ?s2 = replicate (Suc m) \<lparr>todo = 0, at = ENTER\<rparr> @ drop (Suc m) (workers s)"
    by (simp add: w1 list_update_append replicate_append_same)
  from r c2 w2 show ?case by blast
qed

lemma restock_finish:
  assumes "\<And>i. i < length (workers s) \<Longrightarrow> at (workers s ! i) = ENTER"
  shows "\<exists>sched s'. run restock_step sched s = Some s' \<and> all_joined s' \<and>
        counter s' = counter s + int (sum_list (map todo (workers s)))"
proof -
  from restock_sequential[OF assms, of "length (workers s)"]
  obtain sched s' where r: "run restock_step sched s = Some s'"
    and c: "counter s' = counter s + int (sum_list (map todo (workers s)))"
    and w: "workers s' = replicate (length (workers s)) \<lparr>todo = 0, at = ENTER\<rparr>"
    by auto
  have "all_joined s'"
    by (simp add: all_joined_def w list_all_iff returned_def)
  with r c show ?thesis by blast
qed

text \<open>
  The lost update: workers 0 and 1 both read 0, then both write 1.
\<close>

lemma lost_update_prefix:
  assumes "1 \<le> k"
  shows "run restock_step [0, 0, 1, 1, 0, 1] (start 0 (Suc (Suc m)) k) =
     Some \<lparr>counter = 1, holder = None,
           workers = \<lparr>todo = k - 1, at = ENTER\<rparr> # \<lparr>todo = k - 1, at = ENTER\<rparr> #
                     replicate m \<lparr>todo = k, at = ENTER\<rparr>\<rparr>"
  using assms by (simp add: start_def restock_step_def set_worker_def Let_def)

lemma lost_update_run:
  assumes "2 \<le> n" "1 \<le> k"
  shows "\<exists>sched s. run restock_step sched (start 0 n k) = Some s \<and> all_joined s \<and>
           counter s = int (n * k) - 1"
proof -
  from assms(1) obtain m where n: "n = Suc (Suc m)"
    by (metis Suc_le_D numeral_2_eq_2 Suc_le_mono)
  let ?s6 = "\<lparr>counter = 1 :: int, holder = None,
           workers = \<lparr>todo = k - 1, at = ENTER\<rparr> # \<lparr>todo = k - 1, at = ENTER\<rparr> #
                     replicate m \<lparr>todo = k, at = ENTER\<rparr>\<rparr>"
  have enter: "at (workers ?s6 ! i) = ENTER" if "i < length (workers ?s6)" for i
    using that by (auto simp: nth_Cons split: nat.splits)
  from restock_finish[of ?s6, OF enter]
  obtain sched s where r: "run restock_step sched ?s6 = Some s" and j: "all_joined s"
    and c: "counter s = counter ?s6 + int (sum_list (map todo (workers ?s6)))"
    by blast
  have "sum_list (map todo (workers ?s6)) + 2 = n * k"
    using assms(2) by (simp add: n sum_list_replicate)
  then have "int (sum_list (map todo (workers ?s6))) + 2 = int (n * k)"
    by (metis of_nat_add of_nat_numeral)
  with c have c': "counter s = int (n * k) - 1" by simp
  have "run restock_step ([0, 0, 1, 1, 0, 1] @ sched) (start 0 n k) = Some s"
    unfolding run_append n lost_update_prefix[OF assms(2)] using r by simp
  with j c' show ?thesis by blast
qed

text \<open>
  Claim C7. Without the lock the increment is a read followed by a write, and another
  worker can step in between. For every \<open>n \<ge> 2\<close> workers and \<open>k \<ge> 1\<close> iterations
  there is an interleaving after which all workers have returned and the counter is below
  \<open>n * k\<close>; in particular the two threads of the script, 100000 iterations each, can end
  with \<open>chai_stock < 200000\<close>.
\<close>

theorem unguarded_increments_can_be_lost:
  "(2 \<le> n \<and> 1 \<le> k \<longrightarrow>
      (\<exists>sched s. run restock_step sched (start 0 n k) = Some s \<and> all_joined s \<and>
          counter s < int (n * k))) \<and>
   (\<exists>sched s. run restock_step sched race_condition_main = Some s \<and> all_joined s \<and>
          counter s < 200000)"
proof -
  have a: "\<exists>sched s. run restock_step sched (start 0 n' k') = Some s \<and> all_joined s \<and>
          counter s < int (n' * k')" if "2 \<le> n'" "1 \<le> k'" for n' k'
    using lost_update_run[OF that] by fastforce
  have "\<exists>sched s. run restock_step sched (start 0 2 100000) = Some s \<and> all_joined s \<and>
          counter s < int (2 * 100000)"
    by (rule a) simp_all
  then have b: "\<exists>sched s. run restock_step sched race_condition_main = Some s \<and> all_joined s \<and>
          counter s < 200000"
    by (simp add: race_condition_main_def)
  from a b show ?thesis by blast
qed

theorem unguarded_increments_can_be_lost_witness:
  "(2::nat) \<le> 2 \<and> (1::nat) \<le> 1 \<and>
   run restock_step [0, 0, 1, 1, 0, 1] (start 0 2 1)
     = Some \<lparr>counter = 1, holder = None, workers = [\<lparr>todo = 0, at = ENTER\<rparr>, \<lparr>todo = 0, at = ENTER\<rparr>]\<rparr> \<and>
   (\<exists>sched s. run restock_step sched (start 0 2 1) = Some s \<and> all_joined s \<and> counter s < int (2 * 1))"
proof -
  have h: "(2::nat) \<le> 2 \<and> (1::nat) \<le> 1" by simp
  have r: "run restock_step [0, 0, 1, 1, 0, 1] (start 0 2 1)
     = Some \<lparr>counter = 1, holder = None, workers = [\<lparr>todo = 0, at = ENTER\<rparr>, \<lparr>todo = 0, at = ENTER\<rparr>]\<rparr>"
    by code_simp
  from unguarded_increments_can_be_lost[of 2 1, THEN conjunct1, rule_format, OF h]
  have "\<exists>sched s. run restock_step sched (start 0 2 1) = Some s \<and> all_joined s \<and> counter s < int (2 * 1)" .
  with h r show ?thesis by blast
qed

subsection \<open>The scoped lock\<close>

lemma with_lock_blocks_iff:
  "with_lock i body s = None \<longleftrightarrow> holder s \<noteq> None"
  by (auto simp: with_lock_def split: option.splits prod.splits)

lemma with_lock_returns:
  assumes "holder s = None"
  shows "with_lock i body s =
     Some (if holder (fst (body (s\<lparr>holder := Some i\<rparr>))) = None
           then (fst (body (s\<lparr>holder := Some i\<rparr>)), Some RuntimeError)
           else ((fst (body (s\<lparr>holder := Some i\<rparr>)))\<lparr>holder := None\<rparr>, snd (body (s\<lparr>holder := Some i\<rparr>))))"
  using assms by (auto simp: with_lock_def split: option.splits prod.splits)

lemma with_lock_free_after:
  assumes "holder s = None"
  shows "\<exists>s' r. with_lock i body s = Some (s', r) \<and> holder s' = None"
  unfolding with_lock_returns[OF assms] by simp

lemma with_rlock_blocks_iff:
  "with_rlock i body v = None \<longleftrightarrow> (\<exists>j. owner v = Some j \<and> j \<noteq> i)"
  by (auto simp: with_rlock_def racquire_def split: option.splits prod.splits sum.splits if_splits)

lemma racquire_free:
  assumes "owner v = None"
  shows "racquire i v = Some (v\<lparr>owner := Some i, depth := 1\<rparr>)"
  using assms by (simp add: racquire_def)

lemma racquire_again:
  assumes "owner v = Some i"
  shows "racquire i v = Some (v\<lparr>depth := depth v + 1\<rparr>)"
  using assms by (simp add: racquire_def)

lemma with_rlock_returns:
  assumes "racquire i v = Some v1"
  shows "with_rlock i body v =
     Some (case rrelease i (fst (body v1)) of
             Inl e \<Rightarrow> (fst (body v1), Some e)
           | Inr v3 \<Rightarrow> (v3, snd (body v1)))"
  using assms by (simp add: with_rlock_def split: prod.splits sum.splits)

lemma with_rlock_first_entry:
  assumes free: "owner v = None"
    and keeps: "keeps_lock body (v\<lparr>owner := Some i, depth := 1\<rparr>)"
  shows "with_rlock i body v =
     Some ((fst (body (v\<lparr>owner := Some i, depth := 1\<rparr>)))\<lparr>owner := None, depth := 0\<rparr>,
           snd (body (v\<lparr>owner := Some i, depth := 1\<rparr>)))"
  using keeps
  unfolding with_rlock_returns[OF racquire_free[OF free]]
  by (simp add: rrelease_def keeps_lock_def)

lemma with_rlock_reentry:
  assumes own: "owner v = Some i" and pos: "0 < depth v"
    and keeps: "keeps_lock body (v\<lparr>depth := depth v + 1\<rparr>)"
  shows "with_rlock i body v =
     Some ((fst (body (v\<lparr>depth := depth v + 1\<rparr>)))\<lparr>depth := depth v\<rparr>,
           snd (body (v\<lparr>depth := depth v + 1\<rparr>)))"
  using keeps own pos
  unfolding with_rlock_returns[OF racquire_again[OF own]]
  by (simp add: rrelease_def keeps_lock_def)

lemma keeps_lock_value_body: "keeps_lock (value_body m) v"
  by (simp add: keeps_lock_def value_body_def)

lemma with_rlock_value_body:
  assumes "i < length (workers s)" "at (workers s ! i) = ENTER" "todo (workers s ! i) \<noteq> 0"
    and "holder s \<noteq> Some i"
  shows "run (increment_step m) [i, i, i, i] s =
     map_option (\<lambda>(v, r). set_worker i ((workers s ! i)\<lparr>at := ENTER, todo := todo (workers s ! i) - 1\<rparr>) (put_value v s))
       (with_rlock i (value_body m) (value_of s))"
proof (cases "holder s")
  case None
  have o: "owner (value_of s) = None" using None by (simp add: value_of_def)
  show ?thesis
    unfolding critical_section_solo[OF assms(1-3) None]
      with_rlock_first_entry[OF o keeps_lock_value_body]
    by (simp add: value_body_def value_of_def put_value_def None set_worker_def)
next
  case (Some j)
  then have "j \<noteq> i" using assms(4) by simp
  then have "with_rlock i (value_body m) (value_of s) = None"
    using Some by (simp add: with_rlock_blocks_iff value_of_def)
  then show ?thesis
    using assms Some by (simp add: increment_step_def Let_def)
qed


lemma guarded_inside_iff:
  assumes inv: "guarded_inv m k s" and j: "j < length (workers s)"
  shows "inside (workers s ! j) \<longleftrightarrow> holder s = Some j"
proof
  assume "inside (workers s ! j)"
  then have "at (workers s ! j) \<noteq> ENTER" by (auto simp: inside_def)
  then show "holder s = Some j"
    using guarded_inv_worker[OF inv j] by (simp add: worker_ok_def)
next
  assume h: "holder s = Some j"
  have "at (workers s ! j) \<noteq> ENTER" using guarded_inv_holder[OF inv h] by simp
  moreover have "at (workers s ! j) \<noteq> RAISED"
    using guarded_inv_worker[OF inv j] by (simp add: worker_ok_def)
  ultimately show "inside (workers s ! j)"
    by (cases "at (workers s ! j)") (simp_all add: inside_def)
qed

lemma with_lock_counter_body:
  assumes "i < length (workers s)" "at (workers s ! i) = ENTER" "todo (workers s ! i) \<noteq> 0"
  shows "run (increment_step m) [i, i, i, i] s =
     map_option (\<lambda>(s', r). set_worker i ((workers s ! i)\<lparr>at := ENTER, todo := todo (workers s ! i) - 1\<rparr>) s')
       (with_lock i (counter_body m) s)"
proof (cases "holder s")
  case None
  show ?thesis
    unfolding critical_section_solo[OF assms None]
    by (simp add: with_lock_def counter_body_def None set_worker_def)
next
  case (Some j)
  then show ?thesis
    using assms by (simp add: with_lock_def increment_step_def Let_def)
qed

lemma with_lock_exit:
  assumes "holder s = None"
  shows "\<exists>s' r. with_lock i body s = Some (s', r) \<and> holder s' = None \<and>
           (\<exists>s2 r2. body (s\<lparr>holder := Some i\<rparr>) = (s2, r2) \<and>
              (holder s2 \<noteq> None \<longrightarrow> s' = s2\<lparr>holder := None\<rparr> \<and> r = r2) \<and>
              (holder s2 = None \<longrightarrow> s' = s2 \<and> r = Some RuntimeError))"
  unfolding with_lock_returns[OF assms]
  by (cases "body (s\<lparr>holder := Some i\<rparr>)") auto

lemma guarded_pass_returns:
  assumes "i < length (workers s)" "at (workers s ! i) = ENTER" "todo (workers s ! i) \<noteq> 0" "holder s = None"
  shows "\<exists>s'. run (increment_step m) [i, i, i, i] s = Some s' \<and> holder s' = None"
  unfolding critical_section_solo[OF assms] by simp

text \<open>
  Claim C5. The scoped lock acquires the lock before the body runs and releases it on every
  way out of the body, and its execution returns once the lock can be taken.

  \<^item> The lock of \<open>08_thread_lock.py\<close>: the block blocks exactly when the lock is taken;
    when the lock is free it returns, the body has run in a state in which the executing
    worker holds the lock, and the lock is free afterwards, whether the body returned or
    raised; the body's exception leaves the block after the release.
  \<^item> The re-entrant lock of \<open>12_process_value.py\<close>: the block blocks exactly when another
    worker owns the lock; for a body that ends with the lock as it found it, returning or
    raising, the block entered with the lock free leaves it free, and the block entered
    by the owner leaves it with the depth it had at entry.
  \<^item> One pass of a worker of the thread script through its block is \<open>with_lock\<close> applied
    to \<open>counter += 1\<close>, and one pass of a worker of the process script, entered by a worker
    that does not hold the lock, is \<open>with_rlock\<close> applied to \<open>counter.value += 1\<close>.
  \<^item> In every reachable state of the scripts a worker holds the lock exactly while it is
    inside the block, no release has failed, a worker about to enter does not hold the
    lock, and its pass through the block, once the lock is free, returns with the lock free.
\<close>

theorem scoped_lock_releases:
  "(\<forall>i (body :: 'b shared \<Rightarrow> 'b shared \<times> py_exn option) s.
      (with_lock i body s = None \<longleftrightarrow> holder s \<noteq> None) \<and>
      (holder s = None \<longrightarrow>
         (\<exists>s' r. with_lock i body s = Some (s', r) \<and> holder s' = None \<and>
            (\<exists>s2 r2. body (s\<lparr>holder := Some i\<rparr>) = (s2, r2) \<and>
               (holder s2 \<noteq> None \<longrightarrow> s' = s2\<lparr>holder := None\<rparr> \<and> r = r2) \<and>
               (holder s2 = None \<longrightarrow> s' = s2 \<and> r = Some RuntimeError))))) \<and>
   (\<forall>i (body :: 'd value_obj \<Rightarrow> 'd value_obj \<times> py_exn option) v.
      (with_rlock i body v = None \<longleftrightarrow> (\<exists>j. owner v = Some j \<and> j \<noteq> i)) \<and>
      (owner v = None \<and> keeps_lock body (v\<lparr>owner := Some i, depth := 1\<rparr>) \<longrightarrow>
         with_rlock i body v =
           Some ((fst (body (v\<lparr>owner := Some i, depth := 1\<rparr>)))\<lparr>owner := None, depth := 0\<rparr>,
                 snd (body (v\<lparr>owner := Some i, depth := 1\<rparr>)))) \<and>
      (owner v = Some i \<and> 0 < depth v \<and> keeps_lock body (v\<lparr>depth := depth v + 1\<rparr>) \<longrightarrow>
         with_rlock i body v =
           Some ((fst (body (v\<lparr>depth := depth v + 1\<rparr>)))\<lparr>depth := depth v\<rparr>,
                 snd (body (v\<lparr>depth := depth v + 1\<rparr>))))) \<and>
   (\<forall>i s. i < length (workers s) \<and> at (workers s ! i) = ENTER \<and> todo (workers s ! i) \<noteq> 0 \<longrightarrow>
      run (increment_step py_global) [i, i, i, i] s =
        map_option (\<lambda>(s', r). set_worker i ((workers s ! i)\<lparr>at := ENTER, todo := todo (workers s ! i) - 1\<rparr>) s')
          (with_lock i (counter_body py_global) s)) \<and>
   (\<forall>i s. i < length (workers s) \<and> at (workers s ! i) = ENTER \<and> todo (workers s ! i) \<noteq> 0 \<and>
        holder s \<noteq> Some i \<longrightarrow>
      run (increment_step c_int) [i, i, i, i] s =
        map_option (\<lambda>(v, r). set_worker i ((workers s ! i)\<lparr>at := ENTER, todo := todo (workers s ! i) - 1\<rparr>) (put_value v s))
          (with_rlock i (value_body c_int) (value_of s))) \<and>
   (\<forall>sched s j. cell_ok m \<and> run (increment_step m) sched (start (wr m 0) n k) = Some s \<and>
        j < length (workers s) \<longrightarrow>
      (inside (workers s ! j) \<longleftrightarrow> holder s = Some j) \<and> at (workers s ! j) \<noteq> RAISED \<and>
      (at (workers s ! j) = ENTER \<longrightarrow> holder s \<noteq> Some j) \<and>
      (at (workers s ! j) = ENTER \<and> todo (workers s ! j) \<noteq> 0 \<and> holder s = None \<longrightarrow>
         (\<exists>s'. run (increment_step m) [j, j, j, j] s = Some s' \<and> holder s' = None)))"
proof -
  have c: "(inside (workers s ! j) \<longleftrightarrow> holder s = Some j) \<and> at (workers s ! j) \<noteq> RAISED \<and>
      (at (workers s ! j) = ENTER \<longrightarrow> holder s \<noteq> Some j) \<and>
      (at (workers s ! j) = ENTER \<and> todo (workers s ! j) \<noteq> 0 \<and> holder s = None \<longrightarrow>
         (\<exists>s'. run (increment_step m) [j, j, j, j] s = Some s' \<and> holder s' = None))"
    if "cell_ok m" "run (increment_step m) sched (start (wr m 0) n k) = Some s" "j < length (workers s)"
    for sched s j
  proof -
    have inv: "guarded_inv m k s"
      using guarded_inv_run[OF that(1) guarded_inv_start that(2)] .
    have i: "inside (workers s ! j) \<longleftrightarrow> holder s = Some j"
      using guarded_inside_iff[OF inv that(3)] .
    have r: "at (workers s ! j) \<noteq> RAISED"
      using guarded_inv_worker[OF inv that(3)] by (simp add: worker_ok_def)
    have e: "at (workers s ! j) = ENTER \<longrightarrow> holder s \<noteq> Some j"
      using i by (auto simp: inside_def)
    have p: "at (workers s ! j) = ENTER \<and> todo (workers s ! j) \<noteq> 0 \<and> holder s = None \<longrightarrow>
         (\<exists>s'. run (increment_step m) [j, j, j, j] s = Some s' \<and> holder s' = None)"
      using guarded_pass_returns[OF that(3)] by blast
    from i r e p show ?thesis by (intro conjI)
  qed
  have A: "\<forall>i (body :: 'b shared \<Rightarrow> 'b shared \<times> py_exn option) s.
      (with_lock i body s = None \<longleftrightarrow> holder s \<noteq> None) \<and>
      (holder s = None \<longrightarrow>
         (\<exists>s' r. with_lock i body s = Some (s', r) \<and> holder s' = None \<and>
            (\<exists>s2 r2. body (s\<lparr>holder := Some i\<rparr>) = (s2, r2) \<and>
               (holder s2 \<noteq> None \<longrightarrow> s' = s2\<lparr>holder := None\<rparr> \<and> r = r2) \<and>
               (holder s2 = None \<longrightarrow> s' = s2 \<and> r = Some RuntimeError))))"
    using with_lock_blocks_iff with_lock_exit by (intro allI conjI impI)
  have R: "\<forall>i (body :: 'd value_obj \<Rightarrow> 'd value_obj \<times> py_exn option) v.
      (with_rlock i body v = None \<longleftrightarrow> (\<exists>j. owner v = Some j \<and> j \<noteq> i)) \<and>
      (owner v = None \<and> keeps_lock body (v\<lparr>owner := Some i, depth := 1\<rparr>) \<longrightarrow>
         with_rlock i body v =
           Some ((fst (body (v\<lparr>owner := Some i, depth := 1\<rparr>)))\<lparr>owner := None, depth := 0\<rparr>,
                 snd (body (v\<lparr>owner := Some i, depth := 1\<rparr>)))) \<and>
      (owner v = Some i \<and> 0 < depth v \<and> keeps_lock body (v\<lparr>depth := depth v + 1\<rparr>) \<longrightarrow>
         with_rlock i body v =
           Some ((fst (body (v\<lparr>depth := depth v + 1\<rparr>)))\<lparr>depth := depth v\<rparr>,
                 snd (body (v\<lparr>depth := depth v + 1\<rparr>))))"
  proof (intro allI conjI impI)
    fix i and body :: "'d value_obj \<Rightarrow> 'd value_obj \<times> py_exn option" and v
    show "with_rlock i body v = None \<longleftrightarrow> (\<exists>j. owner v = Some j \<and> j \<noteq> i)"
      by (rule with_rlock_blocks_iff)
    show "with_rlock i body v =
           Some ((fst (body (v\<lparr>owner := Some i, depth := 1\<rparr>)))\<lparr>owner := None, depth := 0\<rparr>,
                 snd (body (v\<lparr>owner := Some i, depth := 1\<rparr>)))"
      if "owner v = None \<and> keeps_lock body (v\<lparr>owner := Some i, depth := 1\<rparr>)"
      using that with_rlock_first_entry[of v body i] by blast
    show "with_rlock i body v =
           Some ((fst (body (v\<lparr>depth := depth v + 1\<rparr>)))\<lparr>depth := depth v\<rparr>,
                 snd (body (v\<lparr>depth := depth v + 1\<rparr>)))"
      if "owner v = Some i \<and> 0 < depth v \<and> keeps_lock body (v\<lparr>depth := depth v + 1\<rparr>)"
      using that with_rlock_reentry[of v i body] by blast
  qed
  have B: "\<forall>i s. i < length (workers s) \<and> at (workers s ! i) = ENTER \<and> todo (workers s ! i) \<noteq> 0 \<longrightarrow>
      run (increment_step py_global) [i, i, i, i] s =
        map_option (\<lambda>(s', r). set_worker i ((workers s ! i)\<lparr>at := ENTER, todo := todo (workers s ! i) - 1\<rparr>) s')
          (with_lock i (counter_body py_global) s)"
    using with_lock_counter_body by blast
  have V: "\<forall>i s. i < length (workers s) \<and> at (workers s ! i) = ENTER \<and> todo (workers s ! i) \<noteq> 0 \<and>
        holder s \<noteq> Some i \<longrightarrow>
      run (increment_step c_int) [i, i, i, i] s =
        map_option (\<lambda>(v, r). set_worker i ((workers s ! i)\<lparr>at := ENTER, todo := todo (workers s ! i) - 1\<rparr>) (put_value v s))
          (with_rlock i (value_body c_int) (value_of s))"
    using with_rlock_value_body by blast
  have C: "\<forall>sched s j. cell_ok m \<and> run (increment_step m) sched (start (wr m 0) n k) = Some s \<and>
        j < length (workers s) \<longrightarrow>
      (inside (workers s ! j) \<longleftrightarrow> holder s = Some j) \<and> at (workers s ! j) \<noteq> RAISED \<and>
      (at (workers s ! j) = ENTER \<longrightarrow> holder s \<noteq> Some j) \<and>
      (at (workers s ! j) = ENTER \<and> todo (workers s ! j) \<noteq> 0 \<and> holder s = None \<longrightarrow>
         (\<exists>s'. run (increment_step m) [j, j, j, j] s = Some s' \<and> holder s' = None))"
    using c by blast
  from A R B V C show ?thesis by (intro conjI)
qed


theorem scoped_lock_releases_witness:
  "(\<exists>s' r. with_lock 0 (\<lambda>s. (s\<lparr>counter := 7\<rparr>, Some (BodyError ''boom''))) (start (0 :: int) 2 1) = Some (s', r) \<and>
       holder s' = None \<and> counter s' = 7 \<and> r = Some (BodyError ''boom'')) \<and>
   with_lock 1 (\<lambda>s. (s\<lparr>counter := 7\<rparr>, Some (BodyError ''boom'')))
       \<lparr>counter = 0 :: int, holder = Some 0, workers = [\<lparr>todo = 1, at = LOAD\<rparr>, \<lparr>todo = 1, at = ENTER\<rparr>]\<rparr> = None \<and>
   with_rlock 1 (\<lambda>v. (v\<lparr>content := 7\<rparr>, Some (BodyError ''boom''))) \<lparr>content = 0 :: int, owner = None, depth = 0\<rparr>
     = Some (\<lparr>content = 7, owner = None, depth = 0\<rparr>, Some (BodyError ''boom'')) \<and>
   with_rlock 1 (\<lambda>v. (v\<lparr>content := 7\<rparr>, Some (BodyError ''boom''))) \<lparr>content = 0 :: int, owner = Some 1, depth = 1\<rparr>
     = Some (\<lparr>content = 7, owner = Some 1, depth = 1\<rparr>, Some (BodyError ''boom'')) \<and>
   with_rlock 1 (\<lambda>v. (v\<lparr>content := 7\<rparr>, Some (BodyError ''boom''))) \<lparr>content = 0 :: int, owner = Some 0, depth = 1\<rparr>
     = None \<and>
   run (increment_step py_global) [0, 0, 0, 0] (start 0 2 1)
     = Some \<lparr>counter = 1, holder = None, workers = [\<lparr>todo = 0, at = ENTER\<rparr>, \<lparr>todo = 1, at = ENTER\<rparr>]\<rparr> \<and>
   run (increment_step c_int) [0, 0, 0, 0] (start 0 2 1)
     = Some \<lparr>counter = 1, holder = None, workers = [\<lparr>todo = 0, at = ENTER\<rparr>, \<lparr>todo = 1, at = ENTER\<rparr>]\<rparr> \<and>
   run (increment_step py_global) [0] (start 0 2 1)
     = Some \<lparr>counter = 0, holder = Some 0, workers = [\<lparr>todo = 1, at = LOAD\<rparr>, \<lparr>todo = 1, at = ENTER\<rparr>]\<rparr> \<and>
   (inside (workers \<lparr>counter = 0 :: int, holder = Some 0,
                     workers = [\<lparr>todo = 1, at = LOAD\<rparr>, \<lparr>todo = 1, at = ENTER\<rparr>]\<rparr> ! 0) \<longleftrightarrow>
    holder \<lparr>counter = 0 :: int, holder = Some 0,
             workers = [\<lparr>todo = 1, at = LOAD\<rparr>, \<lparr>todo = 1, at = ENTER\<rparr>]\<rparr> = Some 0)"
proof -
  let ?boom = "\<lambda>s :: int shared. (s\<lparr>counter := 7\<rparr>, Some (BodyError ''boom''))"
  let ?vboom = "\<lambda>v :: int value_obj. (v\<lparr>content := 7\<rparr>, Some (BodyError ''boom''))"
  let ?s1 = "\<lparr>counter = 0 :: int, holder = Some 0, workers = [\<lparr>todo = 1, at = LOAD\<rparr>, \<lparr>todo = 1, at = ENTER\<rparr>]\<rparr>"
  note inst = scoped_lock_releases[where m = py_global and n = 2 and k = 1]
  note lock = inst[THEN conjunct1, rule_format]
  note rlock = inst[THEN conjunct2, THEN conjunct1, rule_format]
  note thread = inst[THEN conjunct2, THEN conjunct2, THEN conjunct1, rule_format]
  note process = inst[THEN conjunct2, THEN conjunct2, THEN conjunct2, THEN conjunct1, rule_format]
  note reach = inst[THEN conjunct2, THEN conjunct2, THEN conjunct2, THEN conjunct2, rule_format]
  have free: "holder (start (0 :: int) 2 1) = None" by (simp add: start_def)
  obtain s' r s2 r2 where
    w: "with_lock 0 ?boom (start 0 2 1) = Some (s', r)" and h: "holder s' = None" and
    b: "?boom ((start 0 2 1)\<lparr>holder := Some 0\<rparr>) = (s2, r2)" and
    e: "holder s2 \<noteq> None \<longrightarrow> s' = s2\<lparr>holder := None\<rparr> \<and> r = r2"
    using lock[THEN conjunct2, rule_format, OF free, of 0 ?boom] by blast
  have s2: "s2 = (start 0 2 1)\<lparr>holder := Some 0, counter := 7\<rparr>" and r2: "r2 = Some (BodyError ''boom'')"
    using b by auto
  have "holder s2 \<noteq> None" unfolding s2 by simp
  then have "s' = s2\<lparr>holder := None\<rparr>" "r = r2" using e by blast+
  then have "counter s' = 7" "r = Some (BodyError ''boom'')" unfolding s2 r2 by simp_all
  then have a1: "\<exists>s' r. with_lock 0 ?boom (start (0 :: int) 2 1) = Some (s', r) \<and>
       holder s' = None \<and> counter s' = 7 \<and> r = Some (BodyError ''boom'')"
    using w h by blast
  have taken: "holder ?s1 \<noteq> None" by simp
  have a2: "with_lock 1 ?boom ?s1 = None"
    using lock[THEN conjunct1, of 1 ?boom ?s1] taken by blast
  have k1: "owner \<lparr>content = 0 :: int, owner = None, depth = 0\<rparr> = None \<and>
      keeps_lock ?vboom (\<lparr>content = 0 :: int, owner = None, depth = 0\<rparr>\<lparr>owner := Some 1, depth := 1\<rparr>)"
    by (simp add: keeps_lock_def)
  have a3: "with_rlock 1 ?vboom \<lparr>content = 0 :: int, owner = None, depth = 0\<rparr>
     = Some (\<lparr>content = 7, owner = None, depth = 0\<rparr>, Some (BodyError ''boom''))"
    using rlock[THEN conjunct2, THEN conjunct1, rule_format, OF k1] by simp
  have k2: "owner \<lparr>content = 0 :: int, owner = Some 1, depth = 1\<rparr> = Some 1 \<and>
      0 < depth \<lparr>content = 0 :: int, owner = Some 1, depth = 1\<rparr> \<and>
      keeps_lock ?vboom (\<lparr>content = 0 :: int, owner = Some 1, depth = 1\<rparr>
                            \<lparr>depth := depth \<lparr>content = 0 :: int, owner = Some 1, depth = 1\<rparr> + 1\<rparr>)"
    by (simp add: keeps_lock_def)
  have a4: "with_rlock 1 ?vboom \<lparr>content = 0 :: int, owner = Some 1, depth = 1\<rparr>
     = Some (\<lparr>content = 7, owner = Some 1, depth = 1\<rparr>, Some (BodyError ''boom''))"
    using rlock[THEN conjunct2, THEN conjunct2, rule_format, OF k2] by simp
  have other: "\<exists>j. owner \<lparr>content = 0 :: int, owner = Some 0, depth = 1\<rparr> = Some j \<and> j \<noteq> 1"
    by simp
  have a5: "with_rlock 1 ?vboom \<lparr>content = 0 :: int, owner = Some 0, depth = 1\<rparr> = None"
    using rlock[THEN conjunct1, of 1 ?vboom "\<lparr>content = 0 :: int, owner = Some 0, depth = 1\<rparr>"] other
    by blast
  have p1: "0 < length (workers (start (0 :: int) 2 1)) \<and> at (workers (start (0 :: int) 2 1) ! 0) = ENTER \<and>
      todo (workers (start (0 :: int) 2 1) ! 0) \<noteq> 0"
    by (simp add: start_def)
  have a6: "run (increment_step py_global) [0, 0, 0, 0] (start 0 2 1)
     = Some \<lparr>counter = 1, holder = None, workers = [\<lparr>todo = 0, at = ENTER\<rparr>, \<lparr>todo = 1, at = ENTER\<rparr>]\<rparr>"
    unfolding thread[OF p1]
    by (simp add: with_lock_def counter_body_def start_def set_worker_def py_global_def numeral_2_eq_2)
  have p2: "0 < length (workers (start (0 :: 32 word) 2 1)) \<and> at (workers (start (0 :: 32 word) 2 1) ! 0) = ENTER \<and>
      todo (workers (start (0 :: 32 word) 2 1) ! 0) \<noteq> 0 \<and> holder (start (0 :: 32 word) 2 1) \<noteq> Some 0"
    by (simp add: start_def)
  have a7: "run (increment_step c_int) [0, 0, 0, 0] (start 0 2 1)
     = Some \<lparr>counter = 1, holder = None, workers = [\<lparr>todo = 0, at = ENTER\<rparr>, \<lparr>todo = 1, at = ENTER\<rparr>]\<rparr>"
    unfolding process[OF p2]
    by (simp add: with_rlock_def racquire_def rrelease_def value_body_def value_of_def put_value_def
        start_def set_worker_def c_int_def numeral_2_eq_2)
  have r: "run (increment_step py_global) [0] (start 0 2 1) = Some ?s1"
    by code_simp
  have r': "cell_ok py_global \<and> run (increment_step py_global) [0] (start (wr py_global 0) 2 1) = Some ?s1 \<and>
      0 < length (workers ?s1)"
    using r cell_ok_py_global by (simp add: py_global_def)
  have a8: "inside (workers ?s1 ! 0) \<longleftrightarrow> holder ?s1 = Some 0"
    using reach[OF r'] by blast
  from a1 a2 a3 a4 a5 a6 a7 r a8 show ?thesis by (intro conjI)
qed

subsection \<open>Deadlock\<close>

lemma circular_wait_stuck: "deadlock_step i circular_wait = None"
  by (simp add: deadlock_step_def task1_def task2_def circular_wait_def)

lemma circular_wait_forever:
  "run deadlock_step sched circular_wait = Some s \<Longrightarrow> sched = [] \<and> s = circular_wait"
  by (cases sched) (simp_all add: circular_wait_stuck)

lemma lock_inv_go1: "lock_inv s \<Longrightarrow> task1 s = Some s' \<Longrightarrow> lock_inv s'"
  by (cases "p1 s"; cases "p2 s")
    (clarsimp simp: lock_inv_def owns_first_def task1_def split: if_splits)+

lemma lock_inv_go2: "lock_inv s \<Longrightarrow> task2 s = Some s' \<Longrightarrow> lock_inv s'"
  by (cases "p1 s"; cases "p2 s")
    (clarsimp simp: lock_inv_def owns_first_def task2_def split: if_splits)+

lemma lock_inv_expire1: "lock_inv s \<Longrightarrow> expire1 s = Some s' \<Longrightarrow> lock_inv s'"
  by (cases "p1 s"; cases "p2 s")
    (clarsimp simp: lock_inv_def owns_first_def expire1_def split: if_splits)+

lemma lock_inv_expire2: "lock_inv s \<Longrightarrow> expire2 s = Some s' \<Longrightarrow> lock_inv s'"
  by (cases "p1 s"; cases "p2 s")
    (clarsimp simp: lock_inv_def owns_first_def expire2_def split: if_splits)+

lemma lock_inv_step: "lock_inv s \<Longrightarrow> timed_step e s = Some s' \<Longrightarrow> lock_inv s'"
  by (cases e)
    (auto simp: deadlock_step_def split: if_splits
      dest: lock_inv_go1 lock_inv_go2 lock_inv_expire1 lock_inv_expire2)

lemma lock_inv_run: "lock_inv s \<Longrightarrow> run timed_step sched s = Some s' \<Longrightarrow> lock_inv s'"
proof (induction sched arbitrary: s)
  case Nil
  then show ?case by simp
next
  case (Cons e sched)
  then show ?case by (auto split: option.splits dest: lock_inv_step)
qed

lemma gave_up_step:
  "timed_step e s = Some s' \<Longrightarrow>
     (gave_up (p1 s) \<longrightarrow> gave_up (p1 s')) \<and> (gave_up (p2 s) \<longrightarrow> gave_up (p2 s'))"
  by (cases e; cases "p1 s"; cases "p2 s")
    (clarsimp simp: gave_up_def deadlock_step_def task1_def task2_def expire1_def expire2_def
      split: if_splits)+

lemma gave_up_run:
  "run timed_step sched s = Some s' \<Longrightarrow> gave_up (p1 s) \<or> gave_up (p2 s) \<Longrightarrow>
   gave_up (p1 s') \<or> gave_up (p2 s')"
proof (induction sched arbitrary: s)
  case Nil
  then show ?case by simp
next
  case (Cons e sched)
  from Cons.prems(1) obtain s1 where st: "timed_step e s = Some s1"
    and rest: "run timed_step sched s1 = Some s'"
    by (auto split: option.splits)
  from gave_up_step[OF st] Cons.prems(2) have "gave_up (p1 s1) \<or> gave_up (p2 s1)" by blast
  from Cons.IH[OF rest this] show ?case .
qed

lemma circular_wait_first_step:
  "timed_step e circular_wait = Some s \<Longrightarrow> (\<exists>i. e = Expire i) \<and> (gave_up (p1 s) \<or> gave_up (p2 s))"
  by (cases e)
    (auto simp: gave_up_def deadlock_step_def task1_def task2_def expire1_def expire2_def circular_wait_def
      split: if_splits)

lemma circular_wait_timed:
  assumes "run timed_step sched circular_wait = Some s" "sched \<noteq> []"
  shows "(\<exists>i. hd sched = Expire i) \<and> (gave_up (p1 s) \<or> gave_up (p2 s))"
proof -
  from assms obtain e rest s1 where sched: "sched = e # rest"
    and st: "timed_step e circular_wait = Some s1" and r: "run timed_step rest s1 = Some s"
    by (cases sched) (auto split: option.splits)
  from circular_wait_first_step[OF st] gave_up_run[OF r] show ?thesis
    by (simp add: sched)
qed

lemma lock_inv_circular_wait: "lock_inv circular_wait"
  by (simp add: lock_inv_def circular_wait_def owns_first_def)

lemma timed_out_released:
  assumes "lock_inv s"
  shows "(p1 s = TIMED_OUT \<longrightarrow> held_a s \<noteq> Some 1 \<and> held_b s \<noteq> Some 1) \<and>
         (p2 s = TIMED_OUT \<longrightarrow> held_a s \<noteq> Some 2 \<and> held_b s \<noteq> Some 2)"
  using assms by (cases "p1 s"; cases "p2 s") (simp_all add: lock_inv_def owns_first_def)

lemma ended_locks_free:
  assumes "lock_inv s" "ended (p1 s)" "ended (p2 s)"
  shows "held_a s = None \<and> held_b s = None"
  using assms by (cases "p1 s"; cases "p2 s") (simp_all add: lock_inv_def owns_first_def ended_def)

text \<open>
  Claim C2. Task 1 takes lock A then lock B, task 2 takes lock B then lock A. The state in
  which task 1 holds A and task 2 holds B is reachable, and from it neither task can ever
  take a step: every run from it stays there, so "both tasks completed" is unreachable.
  With timed acquires the same state is reachable and still no task can proceed by itself;
  every run that leaves it has a task whose acquire timed out, a task that timed out holds
  no lock, every run in which both tasks end has a timed-out task and both locks free, and
  after either task has timed out and released its lock the other runs to completion.
\<close>

theorem opposite_lock_order_deadlocks:
  "run deadlock_step [1, 2] deadlock_main = Some circular_wait \<and>
   (\<forall>i. deadlock_step i circular_wait = None) \<and>
   (\<forall>sched s. run deadlock_step sched circular_wait = Some s \<longrightarrow>
       s = circular_wait \<and> \<not> both_completed s) \<and>
   run timed_step [Go 1, Go 2] deadlock_main = Some circular_wait \<and>
   (\<forall>i. timed_step (Go i) circular_wait = None) \<and>
   (\<forall>sched s. run timed_step sched circular_wait = Some s \<and> sched \<noteq> [] \<longrightarrow>
       gave_up (p1 s) \<or> gave_up (p2 s)) \<and>
   (\<forall>sched s. run timed_step sched circular_wait = Some s \<longrightarrow>
       (p1 s = TIMED_OUT \<longrightarrow> held_a s \<noteq> Some 1 \<and> held_b s \<noteq> Some 1) \<and>
       (p2 s = TIMED_OUT \<longrightarrow> held_a s \<noteq> Some 2 \<and> held_b s \<noteq> Some 2)) \<and>
   (\<forall>sched s. run timed_step sched circular_wait = Some s \<and> ended (p1 s) \<and> ended (p2 s) \<longrightarrow>
       (p1 s = TIMED_OUT \<or> p2 s = TIMED_OUT) \<and> held_a s = None \<and> held_b s = None) \<and>
   run timed_step [Expire 1, Go 1, Go 2, Go 2, Go 2] circular_wait
     = Some \<lparr>held_a = None, held_b = None, p1 = TIMED_OUT, p2 = FINISHED\<rparr> \<and>
   run timed_step [Expire 2, Go 2, Go 1, Go 1, Go 1] circular_wait
     = Some \<lparr>held_a = None, held_b = None, p1 = FINISHED, p2 = TIMED_OUT\<rparr>"
proof -
  have u1: "run deadlock_step [1, 2] deadlock_main = Some circular_wait"
    by (simp add: deadlock_step_def task1_def task2_def deadlock_main_def circular_wait_def)
  have u2: "\<forall>i. deadlock_step i circular_wait = None"
    by (simp add: circular_wait_stuck)
  have u3: "\<forall>sched s. run deadlock_step sched circular_wait = Some s \<longrightarrow>
       s = circular_wait \<and> \<not> both_completed s"
  proof (intro allI impI)
    fix sched s assume "run deadlock_step sched circular_wait = Some s"
    then have "s = circular_wait" using circular_wait_forever by blast
    then show "s = circular_wait \<and> \<not> both_completed s"
      by (simp add: both_completed_def circular_wait_def)
  qed
  have t1: "run timed_step [Go 1, Go 2] deadlock_main = Some circular_wait"
    by (simp add: deadlock_step_def task1_def task2_def deadlock_main_def circular_wait_def)
  have t2: "\<forall>i. timed_step (Go i) circular_wait = None"
    by (simp add: circular_wait_stuck)
  have t3: "\<forall>sched s. run timed_step sched circular_wait = Some s \<and> sched \<noteq> [] \<longrightarrow>
       gave_up (p1 s) \<or> gave_up (p2 s)"
    using circular_wait_timed by blast
  have inv: "lock_inv s" if "run timed_step sched circular_wait = Some s" for sched s
    using lock_inv_run[OF lock_inv_circular_wait that] .
  have t4: "\<forall>sched s. run timed_step sched circular_wait = Some s \<longrightarrow>
       (p1 s = TIMED_OUT \<longrightarrow> held_a s \<noteq> Some 1 \<and> held_b s \<noteq> Some 1) \<and>
       (p2 s = TIMED_OUT \<longrightarrow> held_a s \<noteq> Some 2 \<and> held_b s \<noteq> Some 2)"
    using timed_out_released inv by blast
  have t5: "\<forall>sched s. run timed_step sched circular_wait = Some s \<and> ended (p1 s) \<and> ended (p2 s) \<longrightarrow>
       (p1 s = TIMED_OUT \<or> p2 s = TIMED_OUT) \<and> held_a s = None \<and> held_b s = None"
  proof (intro allI impI, elim conjE)
    fix sched s
    assume r: "run timed_step sched circular_wait = Some s" and e: "ended (p1 s)" "ended (p2 s)"
    have "sched \<noteq> []"
      using r e by (auto simp: circular_wait_def ended_def)
    with r t3 have "gave_up (p1 s) \<or> gave_up (p2 s)" by blast
    with e have "p1 s = TIMED_OUT \<or> p2 s = TIMED_OUT"
      by (auto simp: gave_up_def ended_def)
    with ended_locks_free[OF inv[OF r] e]
    show "(p1 s = TIMED_OUT \<or> p2 s = TIMED_OUT) \<and> held_a s = None \<and> held_b s = None"
      by simp
  qed
  have t6: "run timed_step [Expire 1, Go 1, Go 2, Go 2, Go 2] circular_wait
     = Some \<lparr>held_a = None, held_b = None, p1 = TIMED_OUT, p2 = FINISHED\<rparr>"
    by (simp add: deadlock_step_def task1_def task2_def expire1_def circular_wait_def)
  have t7: "run timed_step [Expire 2, Go 2, Go 1, Go 1, Go 1] circular_wait
     = Some \<lparr>held_a = None, held_b = None, p1 = FINISHED, p2 = TIMED_OUT\<rparr>"
    by (simp add: deadlock_step_def task1_def task2_def expire2_def circular_wait_def)
  from u1 u2 u3 t1 t2 t3 t4 t5 t6 t7 show ?thesis by (intro conjI)
qed

theorem opposite_lock_order_deadlocks_witness:
  "run deadlock_step [] circular_wait = Some circular_wait \<and>
   \<not> both_completed circular_wait \<and>
   run timed_step [Expire 1, Go 1] circular_wait
     = Some \<lparr>held_a = None, held_b = Some 2, p1 = TIMED_OUT, p2 = HOLD1\<rparr> \<and>
   [Expire 1, Go 1] \<noteq> [] \<and>
   (gave_up (p1 \<lparr>held_a = None, held_b = Some 2, p1 = TIMED_OUT, p2 = HOLD1\<rparr>) \<or>
    gave_up (p2 \<lparr>held_a = None, held_b = Some 2, p1 = TIMED_OUT, p2 = HOLD1\<rparr>)) \<and>
   held_a \<lparr>held_a = None, held_b = Some 2, p1 = TIMED_OUT, p2 = HOLD1\<rparr> \<noteq> Some 1"
proof -
  let ?s = "\<lparr>held_a = None, held_b = Some 2, p1 = TIMED_OUT, p2 = HOLD1\<rparr>"
  have r0: "run deadlock_step [] circular_wait = Some circular_wait" by simp
  have r: "run timed_step [Expire 1, Go 1] circular_wait = Some ?s"
    by (simp add: deadlock_step_def task1_def expire1_def circular_wait_def)
  have ne: "[Expire 1, Go 1] \<noteq> []" by simp
  note d = opposite_lock_order_deadlocks
  have a: "\<not> both_completed circular_wait"
    using d[THEN conjunct2, THEN conjunct2, THEN conjunct1, rule_format, OF r0] by simp
  have b: "gave_up (p1 ?s) \<or> gave_up (p2 ?s)"
    using d[THEN conjunct2, THEN conjunct2, THEN conjunct2, THEN conjunct2, THEN conjunct2,
        THEN conjunct1, rule_format, OF conjI[OF r ne]] .
  have t: "p1 ?s = TIMED_OUT" by simp
  have c: "held_a ?s \<noteq> Some 1"
    using d[THEN conjunct2, THEN conjunct2, THEN conjunct2, THEN conjunct2, THEN conjunct2,
        THEN conjunct2, THEN conjunct1, rule_format, OF r, THEN conjunct1, rule_format, OF t] by simp
  from r0 a r ne b c show ?thesis by (intro conjI)
qed

subsection \<open>Daemon and non-daemon threads\<close>

lemma lifecycle_inv_script: "lifecycle_inv (script d)"
  by (simp add: lifecycle_inv_def script_def)

lemma lifecycle_inv_step: "lifecycle_inv s \<Longrightarrow> lifecycle_step e s = Some s' \<Longrightarrow> lifecycle_inv s'"
  by (cases e; cases "main_at s"; cases "monitor_at s")
    (clarsimp simp: lifecycle_inv_def lifecycle_step_def main_thread_def monitor_tea_temp_def
      shutdown_def alive_def split: if_splits)+

lemma lifecycle_step_daemon: "lifecycle_step e s = Some s' \<Longrightarrow> daemon s' = daemon s"
  by (cases e; cases "main_at s"; cases "monitor_at s")
    (clarsimp simp: lifecycle_step_def main_thread_def monitor_tea_temp_def
      shutdown_def split: if_splits)+

lemma lifecycle_run:
  "lifecycle_inv s \<Longrightarrow> run lifecycle_step sched s = Some s' \<Longrightarrow>
   lifecycle_inv s' \<and> daemon s' = daemon s"
proof (induction sched arbitrary: s)
  case Nil
  then show ?case by simp
next
  case (Cons e sched)
  from Cons.prems(2) obtain s1 where st: "lifecycle_step e s = Some s1"
    and rest: "run lifecycle_step sched s1 = Some s'"
    by (auto split: option.splits)
  from Cons.IH[OF lifecycle_inv_step[OF Cons.prems(1) st] rest] lifecycle_step_daemon[OF st]
  show ?case by simp
qed

text \<open>The monitor of the non-daemon script prints as many lines as one likes.\<close>

lemma monitor_rounds:
  assumes "monitor_at s = W_PRINT" "\<not> exited s"
  shows "\<exists>s'. run lifecycle_step (concat (replicate n [Monitor, Monitor])) s = Some s' \<and>
     printed s' = printed s + n \<and> monitor_at s' = W_PRINT \<and> exited s' = exited s \<and>
     main_at s' = main_at s \<and> daemon s' = daemon s"
  using assms
proof (induction n arbitrary: s)
  case 0
  then show ?case by simp
next
  case (Suc n)
  let ?s2 = "s\<lparr>printed := printed s + 1, monitor_at := W_PRINT\<rparr>"
  have two: "run lifecycle_step [Monitor, Monitor] s = Some ?s2"
    using Suc.prems by (simp add: lifecycle_step_def monitor_tea_temp_def)
  have p2: "monitor_at ?s2 = W_PRINT" "\<not> exited ?s2"
    using Suc.prems by simp_all
  from Suc.IH[OF p2]
  obtain s' where r: "run lifecycle_step (concat (replicate n [Monitor, Monitor])) ?s2 = Some s'"
    and f1: "printed s' = printed ?s2 + n" and f2: "monitor_at s' = W_PRINT"
    and f3: "exited s' = exited ?s2" and f4: "main_at s' = main_at ?s2" and f5: "daemon s' = daemon ?s2"
    by blast
  have c: "concat (replicate (Suc n) [Monitor, Monitor])
      = [Monitor, Monitor] @ concat (replicate n [Monitor, Monitor])"
    by simp
  have "run lifecycle_step (concat (replicate (Suc n) [Monitor, Monitor])) s = Some s'"
    unfolding c run_append two using r by simp
  moreover have "printed s' = printed s + Suc n" using f1 by simp
  moreover have "exited s' = exited s" "main_at s' = main_at s" "daemon s' = daemon s"
    using f3 f4 f5 by simp_all
  ultimately show ?case using f2 by blast
qed

lemma lifecycle_alive:
  assumes "lifecycle_inv s" "main_at s \<noteq> M_CREATE" "\<not> exited s"
  shows "alive (monitor_at s)"
  using assms by (cases "monitor_at s") (simp_all add: lifecycle_inv_def alive_def)

lemma exited_stuck: "exited s \<Longrightarrow> lifecycle_step e s = None"
  by (simp add: lifecycle_step_def)

lemma daemon_shutdown:
  assumes r: "run lifecycle_step sched daemon_main = Some s" and m: "main_at s = M_END" and e: "\<not> exited s"
  shows "\<exists>s'. lifecycle_step Shutdown s = Some s' \<and> exited s' \<and> monitor_at s' = W_KILLED \<and>
            printed s' = printed s \<and> (\<forall>e. lifecycle_step e s' = None)"
proof -
  have inv: "lifecycle_inv s" and d: "daemon s"
    using lifecycle_run[OF lifecycle_inv_script r[unfolded daemon_main_def]]
    by (simp_all add: script_def)
  have a: "alive (monitor_at s)"
    using lifecycle_alive[OF inv _ e] m by simp
  let ?s' = "s\<lparr>exited := True, monitor_at := W_KILLED\<rparr>"
  have "lifecycle_step Shutdown s = Some ?s'"
    using m e d a by (simp add: lifecycle_step_def shutdown_def)
  moreover have "\<forall>e. lifecycle_step e ?s' = None"
    by (simp add: exited_stuck)
  ultimately show ?thesis by simp
qed

lemma non_daemon_never_exits:
  assumes r: "run lifecycle_step sched non_daemon_main = Some s"
  shows "\<not> exited s \<and> lifecycle_step Shutdown s = None \<and>
         (main_at s \<noteq> M_CREATE \<longrightarrow> lifecycle_step Monitor s \<noteq> None)"
proof -
  have inv: "lifecycle_inv s" and d: "\<not> daemon s"
    using lifecycle_run[OF lifecycle_inv_script r[unfolded non_daemon_main_def]]
    by (simp_all add: script_def)
  have e: "\<not> exited s" using inv d by (auto simp: lifecycle_inv_def)
  have a: "alive (monitor_at s)" if "main_at s \<noteq> M_CREATE"
    using lifecycle_alive[OF inv that e] .
  have s: "lifecycle_step Shutdown s = None"
  proof (cases "main_at s = M_END")
    case True
    then have "alive (monitor_at s)" using a by simp
    then show ?thesis using d by (simp add: lifecycle_step_def shutdown_def)
  next
    case False
    then show ?thesis by (simp add: lifecycle_step_def shutdown_def)
  qed
  have "lifecycle_step Monitor s \<noteq> None" if "main_at s \<noteq> M_CREATE"
    using a[OF that] e by (auto simp: lifecycle_step_def monitor_tea_temp_def alive_def)
  with e s show ?thesis by blast
qed

lemma non_daemon_prints_forever:
  "\<exists>sched s. run lifecycle_step sched non_daemon_main = Some s \<and> main_at s = M_END \<and> printed s = n"
proof -
  let ?s2 = "\<lparr>daemon = False, main_at = M_END, monitor_at = W_PRINT, printed = 0, exited = False\<rparr>"
  have two: "run lifecycle_step [Main, Main] non_daemon_main = Some ?s2"
    by (simp add: non_daemon_main_def script_def lifecycle_step_def main_thread_def)
  have "monitor_at ?s2 = W_PRINT" "\<not> exited ?s2" by simp_all
  from monitor_rounds[OF this, of n]
  obtain s' where r: "run lifecycle_step (concat (replicate n [Monitor, Monitor])) ?s2 = Some s'"
    and f: "printed s' = printed ?s2 + n" "main_at s' = main_at ?s2"
    by blast
  have "run lifecycle_step ([Main, Main] @ concat (replicate n [Monitor, Monitor])) non_daemon_main = Some s'"
    unfolding run_append two using r by simp
  moreover have "main_at s' = M_END" "printed s' = n" using f by simp_all
  ultimately show ?thesis by blast
qed

lemma shutdown_guard:
  "lifecycle_step Shutdown s = Some s' \<Longrightarrow> main_at s = M_END \<and> (daemon s \<or> \<not> alive (monitor_at s))"
  by (auto simp: lifecycle_step_def shutdown_def split: if_splits)

text \<open>
  Claim C6. In the daemon script, whenever the main thread has reached its end the program
  can shut down at once, whatever the monitor is doing: the shutdown does not wait for the
  monitor, it ends the program and the monitor is killed and never steps again (it may not
  have printed a single line). In the non-daemon script the program never exits: in every
  reachable state the shutdown is blocked and the started monitor can step, so it prints
  without bound. In any state, a shutdown happens only when the main thread is at its end
  and the monitor is a daemon or no longer running.
\<close>

theorem daemon_is_not_joined_non_daemon_blocks_exit:
  "(\<forall>sched s. run lifecycle_step sched daemon_main = Some s \<and> main_at s = M_END \<and> \<not> exited s \<longrightarrow>
      (\<exists>s'. lifecycle_step Shutdown s = Some s' \<and> exited s' \<and> monitor_at s' = W_KILLED \<and>
            printed s' = printed s \<and> (\<forall>e. lifecycle_step e s' = None))) \<and>
   run lifecycle_step [Main, Main, Shutdown] daemon_main
     = Some \<lparr>daemon = True, main_at = M_END, monitor_at = W_KILLED, printed = 0, exited = True\<rparr> \<and>
   (\<forall>sched s. run lifecycle_step sched non_daemon_main = Some s \<longrightarrow>
      \<not> exited s \<and> lifecycle_step Shutdown s = None \<and>
      (main_at s \<noteq> M_CREATE \<longrightarrow> lifecycle_step Monitor s \<noteq> None)) \<and>
   (\<forall>n. \<exists>sched s. run lifecycle_step sched non_daemon_main = Some s \<and> main_at s = M_END \<and>
      printed s = n) \<and>
   (\<forall>s s'. lifecycle_step Shutdown s = Some s' \<longrightarrow>
      main_at s = M_END \<and> (daemon s \<or> \<not> alive (monitor_at s)))"
proof -
  have a: "\<forall>sched s. run lifecycle_step sched daemon_main = Some s \<and> main_at s = M_END \<and> \<not> exited s \<longrightarrow>
      (\<exists>s'. lifecycle_step Shutdown s = Some s' \<and> exited s' \<and> monitor_at s' = W_KILLED \<and>
            printed s' = printed s \<and> (\<forall>e. lifecycle_step e s' = None))"
    using daemon_shutdown by blast
  have b: "run lifecycle_step [Main, Main, Shutdown] daemon_main
     = Some \<lparr>daemon = True, main_at = M_END, monitor_at = W_KILLED, printed = 0, exited = True\<rparr>"
    by (simp add: daemon_main_def script_def lifecycle_step_def main_thread_def shutdown_def alive_def)
  have c: "\<forall>sched s. run lifecycle_step sched non_daemon_main = Some s \<longrightarrow>
      \<not> exited s \<and> lifecycle_step Shutdown s = None \<and>
      (main_at s \<noteq> M_CREATE \<longrightarrow> lifecycle_step Monitor s \<noteq> None)"
    using non_daemon_never_exits by blast
  have d: "\<forall>n. \<exists>sched s. run lifecycle_step sched non_daemon_main = Some s \<and> main_at s = M_END \<and>
      printed s = n"
    using non_daemon_prints_forever by blast
  have e: "\<forall>s s'. lifecycle_step Shutdown s = Some s' \<longrightarrow>
      main_at s = M_END \<and> (daemon s \<or> \<not> alive (monitor_at s))"
    using shutdown_guard by blast
  from a b c d e show ?thesis by (intro conjI)
qed

theorem daemon_is_not_joined_non_daemon_blocks_exit_witness:
  "run lifecycle_step [Main, Main, Monitor] daemon_main
     = Some \<lparr>daemon = True, main_at = M_END, monitor_at = W_SLEEP, printed = 1, exited = False\<rparr> \<and>
   lifecycle_step Shutdown \<lparr>daemon = True, main_at = M_END, monitor_at = W_SLEEP, printed = 1, exited = False\<rparr>
     = Some \<lparr>daemon = True, main_at = M_END, monitor_at = W_KILLED, printed = 1, exited = True\<rparr> \<and>
   run lifecycle_step [Main, Main, Monitor] non_daemon_main
     = Some \<lparr>daemon = False, main_at = M_END, monitor_at = W_SLEEP, printed = 1, exited = False\<rparr> \<and>
   lifecycle_step Shutdown \<lparr>daemon = False, main_at = M_END, monitor_at = W_SLEEP, printed = 1, exited = False\<rparr>
     = None \<and>
   (\<exists>s'. lifecycle_step Shutdown \<lparr>daemon = True, main_at = M_END, monitor_at = W_SLEEP, printed = 1, exited = False\<rparr>
       = Some s' \<and> exited s' \<and> monitor_at s' = W_KILLED)"
proof -
  let ?d = "\<lparr>daemon = True, main_at = M_END, monitor_at = W_SLEEP, printed = 1, exited = False\<rparr>"
  let ?n = "\<lparr>daemon = False, main_at = M_END, monitor_at = W_SLEEP, printed = 1, exited = False\<rparr>"
  have rd: "run lifecycle_step [Main, Main, Monitor] daemon_main = Some ?d"
    by (simp add: daemon_main_def script_def lifecycle_step_def main_thread_def monitor_tea_temp_def)
  have rn: "run lifecycle_step [Main, Main, Monitor] non_daemon_main = Some ?n"
    by (simp add: non_daemon_main_def script_def lifecycle_step_def main_thread_def monitor_tea_temp_def)
  have sd: "lifecycle_step Shutdown ?d
     = Some \<lparr>daemon = True, main_at = M_END, monitor_at = W_KILLED, printed = 1, exited = True\<rparr>"
    by (simp add: lifecycle_step_def shutdown_def alive_def)
  note inst = daemon_is_not_joined_non_daemon_blocks_exit
  have sn: "lifecycle_step Shutdown ?n = None"
    using inst[THEN conjunct2, THEN conjunct2, THEN conjunct1, rule_format, OF rn] by blast
  have hd: "run lifecycle_step [Main, Main, Monitor] daemon_main = Some ?d \<and> main_at ?d = M_END \<and> \<not> exited ?d"
    using rd by simp
  have ex: "\<exists>s'. lifecycle_step Shutdown ?d = Some s' \<and> exited s' \<and> monitor_at s' = W_KILLED"
    using inst[THEN conjunct1, rule_format, OF hd] by blast
  from rd sd rn sn ex show ?thesis by (intro conjI)
qed

subsection \<open>The channel is first-in first-out\<close>

lemma exec_fifo:
  "exec ops c = (c', rs) \<Longrightarrow> buffer c @ accepted ops rs = delivered rs @ buffer c'"
proof (induction ops arbitrary: c rs c')
  case Nil
  then show ?case by simp
next
  case (Cons op ops)
  obtain c1 r where st: "chan_step op c = (c1, r)" by (cases "chan_step op c")
  obtain c2 rs2 where ex: "exec ops c1 = (c2, rs2)" by (cases "exec ops c1")
  from Cons.prems st ex have eq: "c' = c2" "rs = r # rs2" by simp_all
  note ih = Cons.IH[OF ex]
  show ?case
  proof (cases op)
    case (Put p x)
    with st show ?thesis unfolding eq using ih
      by (auto simp: put_def split: if_splits)
  next
    case (Get q)
    with st show ?thesis unfolding eq using ih
      by (cases op; auto simp: get_def split: list.splits)
  next
    case Close
    with st show ?thesis unfolding eq using ih
      by (auto simp: close_def)
  qed
qed

lemma count_list_append: "count_list (xs @ ys) x = count_list xs x + count_list ys x"
  by (induction xs) auto

text \<open>
  Claim C3. For every trace of operations on a new channel, whoever issues them, the items
  the gets return are exactly the accepted puts in acceptance order, as far as the gets
  have come: the accepted sequence is the delivered sequence followed by what is still
  buffered. Every accepted item is delivered at most once: each item occurs in the
  delivered sequence and the buffer together as often as it was accepted, and when the
  accepted items are pairwise different so are the delivered ones.
\<close>

theorem channel_fifo_exactly_once:
  assumes "exec ops (new_channel cap) = (c, rs)"
  shows "accepted ops rs = delivered rs @ buffer c \<and>
     delivered rs = take (length (delivered rs)) (accepted ops rs) \<and>
     (\<forall>k < length (delivered rs). delivered rs ! k = accepted ops rs ! k) \<and>
     (\<forall>x. count_list (delivered rs) x + count_list (buffer c) x = count_list (accepted ops rs) x) \<and>
     (distinct (accepted ops rs) \<longrightarrow>
        distinct (delivered rs) \<and> set (delivered rs) \<inter> set (buffer c) = {})"
proof -
  have eq: "accepted ops rs = delivered rs @ buffer c"
    using exec_fifo[OF assms] by (simp add: new_channel_def)
  have "delivered rs = take (length (delivered rs)) (accepted ops rs)"
    by (simp add: eq)
  moreover have "\<forall>k < length (delivered rs). delivered rs ! k = accepted ops rs ! k"
    by (simp add: eq nth_append)
  moreover have "\<forall>x. count_list (delivered rs) x + count_list (buffer c) x = count_list (accepted ops rs) x"
    by (simp add: eq count_list_append)
  moreover have "distinct (accepted ops rs) \<longrightarrow>
        distinct (delivered rs) \<and> set (delivered rs) \<inter> set (buffer c) = {}"
    by (simp add: eq)
  ultimately show ?thesis using eq by blast
qed

theorem channel_fifo_exactly_once_witness:
  "exec [Put 1 10, Put 2 20, Get 0, Put 1 11, Get 0, Put 2 21] (new_channel (Some 2))
     = (\<lparr>buffer = [11, 21 :: nat], capacity = Some 2, closed = False\<rparr>,
        [Accepted, Accepted, Got 10, Accepted, Got 20, Accepted]) \<and>
   accepted [Put 1 10, Put 2 20, Get 0, Put 1 11, Get 0, Put 2 21]
       [Accepted, Accepted, Got 10, Accepted, Got 20, Accepted] = [10, 20, 11, 21 :: nat] \<and>
   delivered [Accepted, Accepted, Got 10, Accepted, Got 20, Accepted] = [10, 20 :: nat] \<and>
   distinct (delivered [Accepted, Accepted, Got 10, Accepted, Got (20 :: nat), Accepted]) \<and>
   exec [Put 1 ''Masala chai is ready!'', Get 0] (new_channel None)
     = (\<lparr>buffer = [], capacity = None, closed = False\<rparr>, [Accepted, Got ''Masala chai is ready!''])"
proof -
  let ?ops = "[Put 1 10, Put 2 20, Get 0, Put 1 11, Get 0, Put 2 21] :: nat chan_op list"
  let ?rs = "[Accepted, Accepted, Got 10, Accepted, Got 20, Accepted] :: nat chan_result list"
  let ?c = "\<lparr>buffer = [11, 21 :: nat], capacity = Some 2, closed = False\<rparr>"
  have e: "exec ?ops (new_channel (Some 2)) = (?c, ?rs)"
    by (simp add: new_channel_def put_def get_def full_def)
  have a: "accepted ?ops ?rs = [10, 20, 11, 21]" by simp
  have d: "delivered ?rs = [10, 20]" by simp
  have "distinct (accepted ?ops ?rs)" by simp
  with channel_fifo_exactly_once[OF e] have dd: "distinct (delivered ?rs)" by blast
  have s: "exec [Put 1 ''Masala chai is ready!'', Get 0] (new_channel None)
     = (\<lparr>buffer = [], capacity = None, closed = False\<rparr>, [Accepted, Got ''Masala chai is ready!''])"
    by (simp add: new_channel_def put_def get_def full_def)
  from e a d dd s show ?thesis by (intro conjI)
qed

subsection \<open>The scheduler and \<open>await_all\<close>\<close>

text \<open>A finished task stays as it is.\<close>

lemma sched_step_stable:
  assumes "sched_step e s = Some s'" "k < length (tasks s)" "terminal (tasks s ! k)"
  shows "k < length (tasks s') \<and> tasks s' ! k = tasks s ! k"
  using assms
  by (cases e)
    (auto simp: set_task_def is_at_def nth_append nth_list_update split: if_splits option.splits)

lemma all_terminal_step:
  assumes "sched_step e s = Some s'" "all_terminal s hs"
  shows "all_terminal s' hs \<and> aggregate s' hs = aggregate s hs"
  using assms(2) sched_step_stable[OF assms(1)]
  by (induction hs) (auto simp: all_terminal_def aggregate_def)

lemma handed_ok_step:
  assumes "sched_step e s = Some s'" "handed_ok s x"
  shows "handed_ok s' x"
  using assms all_terminal_step[OF assms(1)]
  by (cases x) (auto simp: handed_ok_def)

lemma resumed_step:
  assumes "sched_step e s = Some s'"
  shows "resumed s' = resumed s \<or>
     (\<exists>c hs. e = Resume c \<and> map_of (waits s) c = Some hs \<and> all_terminal s hs \<and>
        resumed s' = (c, hs, aggregate s hs) # resumed s)"
  using assms
  by (cases e) (auto simp: set_task_def split: if_splits option.splits)


lemma handed_inv_step:
  assumes st: "sched_step e s = Some s'" and inv: "list_all (handed_ok s) (resumed s)"
  shows "list_all (handed_ok s') (resumed s')"
proof -
  have old: "list_all (handed_ok s') (resumed s)"
    using inv handed_ok_step[OF st] by (auto simp: list_all_iff)
  from resumed_step[OF st] show ?thesis
  proof
    assume "resumed s' = resumed s"
    with old show ?thesis by simp
  next
    assume "\<exists>c hs. e = Resume c \<and> map_of (waits s) c = Some hs \<and> all_terminal s hs \<and>
        resumed s' = (c, hs, aggregate s hs) # resumed s"
    then obtain c hs where t: "all_terminal s hs"
      and r: "resumed s' = (c, hs, aggregate s hs) # resumed s"
      by blast
    have "handed_ok s' (c, hs, aggregate s hs)"
      using all_terminal_step[OF st t] by (simp add: handed_ok_def)
    with old r show ?thesis by simp
  qed
qed

lemma is_at_set_task:
  "is_at (set_task h t s) k u = (if k = h then h < length (tasks s) \<and> u = t else is_at s k u)"
  by (auto simp: is_at_def set_task_def)

lemma set_task_fields:
  "waits (set_task h t s) = waits s" "resumed (set_task h t s) = resumed s"
  by (simp_all add: set_task_def)

lemma is_at_waits_upd: "is_at (s\<lparr>waits := ws\<rparr>) k u = is_at s k u"
  by (simp add: is_at_def)

lemma is_at_resumed_upd: "is_at (s\<lparr>resumed := rs\<rparr>) k u = is_at s k u"
  by (simp add: is_at_def)

lemma is_at_spawn: "is_at s k u \<Longrightarrow> is_at (s\<lparr>tasks := tasks s @ [PENDING]\<rparr>) k u"
  by (auto simp: is_at_def nth_append)

lemma is_at_unique: "is_at s k u \<Longrightarrow> is_at s k v \<Longrightarrow> u = v"
  by (simp add: is_at_def)

lemma map_of_None_fst: "map_of ws c = None \<Longrightarrow> w \<in> set ws \<Longrightarrow> fst w \<noteq> c"
  by (metis map_of_eq_None_iff image_eqI)

lemma waits_inv_step:
  assumes st: "sched_step e s = Some s'" and inv: "list_all (\<lambda>w. is_at s (fst w) SUSPENDED) (waits s)"
  shows "list_all (\<lambda>w. is_at s' (fst w) SUSPENDED) (waits s')"
proof -
  have w: "is_at s (fst w) SUSPENDED" if "w \<in> set (waits s)" for w
    using inv that by (simp add: list_all_iff)
  show ?thesis
  proof (cases e)
    case Spawn
    with st w show ?thesis by (auto simp: list_all_iff intro: is_at_spawn)
  next
    case (Start h)
    with st have h: "is_at s h PENDING" and s': "s' = set_task h RUNNING s"
      by (auto split: if_splits)
    have "fst w \<noteq> h" if "w \<in> set (waits s)" for w
      using is_at_unique[OF w[OF that]] h by auto
    then show ?thesis using w by (auto simp: s' list_all_iff is_at_set_task set_task_fields)
  next
    case (Yield h)
    with st have h: "is_at s h RUNNING" and s': "s' = set_task h SUSPENDED s"
      by (auto split: if_splits)
    show ?thesis using w h by (auto simp: s' list_all_iff set_task_def is_at_def nth_list_update)
  next
    case (AwaitAll c hs)
    with st have h: "is_at s c RUNNING"
      and s': "s' = set_task c SUSPENDED (s\<lparr>waits := (c, hs) # waits s\<rparr>)"
      by (auto split: if_splits)
    show ?thesis using w h
      by (auto simp: s' list_all_iff set_task_def is_at_def nth_list_update)
  next
    case (Resume c)
    show ?thesis
    proof (cases "map_of (waits s) c")
      case None
      with st Resume have s': "s' = set_task c RUNNING s"
        by (auto split: if_splits)
      have "fst w \<noteq> c" if "w \<in> set (waits s)" for w
        using map_of_None_fst[OF None that] .
      then show ?thesis using w by (auto simp: s' list_all_iff is_at_set_task set_task_fields)
    next
      case (Some hs)
      with st Resume have s': "s' = set_task c RUNNING
          (s\<lparr>waits := forget c (waits s), resumed := (c, hs, aggregate s hs) # resumed s\<rparr>)"
        by (auto split: if_splits)
      show ?thesis using w
        by (auto simp: s' list_all_iff set_task_def forget_def is_at_def nth_list_update)
    qed
  next
    case (Finish h r)
    with st have h: "is_at s h RUNNING" and s': "s' = set_task h (DONE r) s"
      by (auto split: if_splits)
    have "fst w \<noteq> h" if "w \<in> set (waits s)" for w
      using is_at_unique[OF w[OF that]] h by auto
    then show ?thesis using w by (auto simp: s' list_all_iff is_at_set_task set_task_fields)
  next
    case (Fail h x)
    with st have h: "is_at s h RUNNING" and s': "s' = set_task h (FAILED x) s"
      by (auto split: if_splits)
    have "fst w \<noteq> h" if "w \<in> set (waits s)" for w
      using is_at_unique[OF w[OF that]] h by auto
    then show ?thesis using w by (auto simp: s' list_all_iff is_at_set_task set_task_fields)
  next
    case (Cancel h)
    with st have s': "s' = set_task h (FAILED ''CancelledError'') (s\<lparr>waits := forget h (waits s)\<rparr>)"
      by (auto split: if_splits)
    show ?thesis using w
      by (auto simp: s' list_all_iff set_task_def forget_def is_at_def nth_list_update)
  qed
qed

lemma sched_inv_step: "sched_inv s \<Longrightarrow> sched_step e s = Some s' \<Longrightarrow> sched_inv s'"
  unfolding sched_inv_def using handed_inv_step waits_inv_step by blast

lemma sched_inv_run: "sched_inv s \<Longrightarrow> run sched_step evs s = Some s' \<Longrightarrow> sched_inv s'"
proof (induction evs arbitrary: s)
  case Nil
  then show ?case by simp
next
  case (Cons e evs)
  then show ?case by (auto split: option.splits dest: sched_inv_step)
qed

lemma sched_inv_new: "sched_inv new_scheduler"
  by (simp add: sched_inv_def new_scheduler_def)

lemma handed_ok_nth:
  assumes "handed_ok s (c, hs, rs)"
  shows "length rs = length hs \<and>
     (\<forall>i < length hs. hs ! i < length (tasks s) \<and> terminal (tasks s ! (hs ! i)) \<and>
        rs ! i = tasks s ! (hs ! i))"
  using assms by (auto simp: handed_ok_def all_terminal_def aggregate_def list_all_length)

lemma only_resume_runs_waiting:
  assumes w: "is_at s c SUSPENDED" and st: "sched_step e s = Some s'" and r: "is_at s' c RUNNING"
  shows "e = Resume c"
proof (cases e)
  case Spawn
  with st w r show ?thesis by (auto simp: is_at_def nth_append)
next
  case (Start h)
  with st w r show ?thesis by (auto simp: is_at_def set_task_def nth_list_update split: if_splits)
next
  case (Yield h)
  with st w r show ?thesis by (auto simp: is_at_def set_task_def nth_list_update split: if_splits)
next
  case (AwaitAll h hs)
  with st w r show ?thesis by (auto simp: is_at_def set_task_def nth_list_update split: if_splits)
next
  case (Resume h)
  with st w r show ?thesis
    by (auto simp: is_at_def set_task_def nth_list_update split: if_splits option.splits)
next
  case (Finish h x)
  with st w r show ?thesis by (auto simp: is_at_def set_task_def nth_list_update split: if_splits)
next
  case (Fail h x)
  with st w r show ?thesis by (auto simp: is_at_def set_task_def nth_list_update split: if_splits)
next
  case (Cancel h)
  with st w r show ?thesis by (auto simp: is_at_def set_task_def nth_list_update split: if_splits)
qed

lemma resume_waiting:
  assumes "map_of (waits s) c = Some hs" "sched_step (Resume c) s = Some s'"
  shows "all_terminal s hs \<and> resumed s' = (c, hs, aggregate s hs) # resumed s \<and> is_at s' c RUNNING"
  using assms by (auto simp: is_at_def set_task_def split: if_splits)

text \<open>
  Claim C4. In every state the scheduler reaches, whatever the order of the events: each
  aggregated result handed to a caller of \<open>await_all\<close> has the length of the list of
  handles, and its \<open>i\<close>-th entry is the final state (\<open>DONE\<close> with the result, or \<open>FAILED\<close>)
  of the \<open>i\<close>-th handle; a caller waiting in \<open>await_all\<close> is suspended, cannot be resumed
  while a listed task is not yet \<open>DONE\<close> or \<open>FAILED\<close>, becomes running only by its resume,
  and that resume hands it the states of the listed tasks in the order of the list.
\<close>

theorem await_all_preserves_input_order:
  assumes "run sched_step evs new_scheduler = Some s"
  shows "(\<forall>c hs rs. (c, hs, rs) \<in> set (resumed s) \<longrightarrow>
        length rs = length hs \<and>
        (\<forall>i < length hs. hs ! i < length (tasks s) \<and> terminal (tasks s ! (hs ! i)) \<and>
           rs ! i = tasks s ! (hs ! i))) \<and>
     (\<forall>c hs. (c, hs) \<in> set (waits s) \<longrightarrow> is_at s c SUSPENDED) \<and>
     (\<forall>c hs. map_of (waits s) c = Some hs \<and> \<not> all_terminal s hs \<longrightarrow>
        sched_step (Resume c) s = None) \<and>
     (\<forall>c hs s'. map_of (waits s) c = Some hs \<and> sched_step (Resume c) s = Some s' \<longrightarrow>
        all_terminal s hs \<and> resumed s' = (c, hs, aggregate s hs) # resumed s \<and>
        is_at s' c RUNNING) \<and>
     (\<forall>c hs e s'. (c, hs) \<in> set (waits s) \<and> sched_step e s = Some s' \<and> is_at s' c RUNNING \<longrightarrow>
        e = Resume c)"
proof -
  have inv: "sched_inv s"
    using sched_inv_run[OF sched_inv_new assms] .
  have a: "\<forall>c hs rs. (c, hs, rs) \<in> set (resumed s) \<longrightarrow>
        length rs = length hs \<and>
        (\<forall>i < length hs. hs ! i < length (tasks s) \<and> terminal (tasks s ! (hs ! i)) \<and>
           rs ! i = tasks s ! (hs ! i))"
  proof (intro allI impI)
    fix c hs rs assume "(c, hs, rs) \<in> set (resumed s)"
    then have "handed_ok s (c, hs, rs)"
      using inv by (simp add: sched_inv_def list_all_iff)
    then show "length rs = length hs \<and>
        (\<forall>i < length hs. hs ! i < length (tasks s) \<and> terminal (tasks s ! (hs ! i)) \<and>
           rs ! i = tasks s ! (hs ! i))"
      by (rule handed_ok_nth)
  qed
  have b: "\<forall>c hs. (c, hs) \<in> set (waits s) \<longrightarrow> is_at s c SUSPENDED"
    using inv by (auto simp: sched_inv_def list_all_iff)
  have c: "\<forall>c hs. map_of (waits s) c = Some hs \<and> \<not> all_terminal s hs \<longrightarrow>
        sched_step (Resume c) s = None"
    by auto
  have d: "\<forall>c hs s'. map_of (waits s) c = Some hs \<and> sched_step (Resume c) s = Some s' \<longrightarrow>
        all_terminal s hs \<and> resumed s' = (c, hs, aggregate s hs) # resumed s \<and>
        is_at s' c RUNNING"
    using resume_waiting by blast
  have e: "\<forall>c hs e s'. (c, hs) \<in> set (waits s) \<and> sched_step e s = Some s' \<and> is_at s' c RUNNING \<longrightarrow>
        e = Resume c"
    using b only_resume_runs_waiting by blast
  from a b c d e show ?thesis by (intro conjI)
qed

theorem await_all_preserves_input_order_witness:
  "run sched_step [Spawn, Spawn, Spawn, Spawn, Start 0, AwaitAll 0 [1, 2, 3], Start 1, Yield 1,
      Start 2, Yield 2, Start 3, Yield 3, Resume 3, Finish 3 30, Resume 1, Finish 1 10,
      Resume 2, Finish 2 20, Resume 0] new_scheduler
     = Some \<lparr>tasks = [RUNNING, DONE 10, DONE 20, DONE (30 :: nat)], waits = [],
             resumed = [(0, [1, 2, 3], [DONE 10, DONE 20, DONE 30])]\<rparr> \<and>
   (0, [1, 2, 3], [DONE 10, DONE 20, DONE (30 :: nat)])
     \<in> set (resumed \<lparr>tasks = [RUNNING, DONE 10, DONE 20, DONE (30 :: nat)], waits = [],
             resumed = [(0, [1, 2, 3], [DONE 10, DONE 20, DONE 30])]\<rparr>) \<and>
   length [DONE 10, DONE 20, DONE (30 :: nat)] = length [1, 2, 3 :: nat] \<and>
   run sched_step [Spawn, Spawn, Spawn, Spawn, Start 0, AwaitAll 0 [1, 2, 3], Start 1, Yield 1,
      Start 2, Yield 2, Start 3, Yield 3, Resume 3, Finish 3 30, Resume 1, Finish 1 10]
      new_scheduler
     = Some \<lparr>tasks = [SUSPENDED, DONE 10, SUSPENDED, DONE (30 :: nat)], waits = [(0, [1, 2, 3])],
             resumed = []\<rparr> \<and>
   sched_step (Resume 0) \<lparr>tasks = [SUSPENDED, DONE 10, SUSPENDED, DONE (30 :: nat)],
             waits = [(0, [1, 2, 3])], resumed = []\<rparr> = None"
proof -
  let ?evs = "[Spawn, Spawn, Spawn, Spawn, Start 0, AwaitAll 0 [1, 2, 3], Start 1, Yield 1,
      Start 2, Yield 2, Start 3, Yield 3, Resume 3, Finish 3 30, Resume 1, Finish 1 10,
      Resume 2, Finish 2 20, Resume 0] :: nat sevent list"
  let ?s = "\<lparr>tasks = [RUNNING, DONE 10, DONE 20, DONE (30 :: nat)], waits = [],
             resumed = [(0, [1, 2, 3], [DONE 10, DONE 20, DONE 30])]\<rparr>"
  let ?evs2 = "[Spawn, Spawn, Spawn, Spawn, Start 0, AwaitAll 0 [1, 2, 3], Start 1, Yield 1,
      Start 2, Yield 2, Start 3, Yield 3, Resume 3, Finish 3 30, Resume 1, Finish 1 10] :: nat sevent list"
  let ?s2 = "\<lparr>tasks = [SUSPENDED, DONE 10, SUSPENDED, DONE (30 :: nat)], waits = [(0, [1, 2, 3])],
             resumed = []\<rparr>"
  have r: "run sched_step ?evs new_scheduler = Some ?s"
    by code_simp
  have m: "(0, [1, 2, 3], [DONE 10, DONE 20, DONE (30 :: nat)]) \<in> set (resumed ?s)"
    by simp
  have l: "length [DONE 10, DONE 20, DONE (30 :: nat)] = length [1, 2, 3 :: nat]"
    using await_all_preserves_input_order[OF r, THEN conjunct1, rule_format, OF m] by blast
  have r2: "run sched_step ?evs2 new_scheduler = Some ?s2"
    by code_simp
  have w: "map_of (waits ?s2) 0 = Some [1, 2, 3] \<and> \<not> all_terminal ?s2 [1, 2, 3]"
    by (simp add: all_terminal_def)
  have n: "sched_step (Resume 0) ?s2 = None"
    using await_all_preserves_input_order[OF r2, THEN conjunct2, THEN conjunct2, THEN conjunct1,
        rule_format, OF w] .
  from r m l r2 n show ?thesis by (intro conjI)
qed

subsection \<open>Serialization is a round trip\<close>

lemma split2: "c div 64 * 64 + c mod 64 = (c::nat)"
  by simp

lemma scale64: "(x::nat) * 4096 + y * 64 = (x * 64 + y) * 64"
  by simp

lemma scale4096: "(x::nat) * 262144 + y * 4096 = (x * 64 + y) * 4096"
  by simp

lemma split3: "c div 4096 * 4096 + (c div 64) mod 64 * 64 + c mod 64 = (c::nat)"
proof -
  have a: "c div 4096 = (c div 64) div 64" by (simp add: div_mult2_eq)
  have "(c div 64) div 64 * 4096 + (c div 64) mod 64 * 64 = c div 64 * 64"
    unfolding scale64 split2 ..
  then show ?thesis unfolding a by (simp only: split2)
qed

lemma split4:
  "c div 262144 * 262144 + (c div 4096) mod 64 * 4096 + (c div 64) mod 64 * 64 + c mod 64 = (c::nat)"
proof -
  have a: "c div 262144 = (c div 4096) div 64" by (simp add: div_mult2_eq)
  have "(c div 4096) div 64 * 262144 + (c div 4096) mod 64 * 4096 = c div 4096 * 4096"
    unfolding scale4096 split2 ..
  then show ?thesis unfolding a by (simp only: split3)
qed

lemma div_bounds:
  "(c::nat) < 2048 \<Longrightarrow> c div 64 < 32"
  "(c::nat) < 65536 \<Longrightarrow> c div 4096 < 16"
  "(c::nat) < 1114112 \<Longrightarrow> c div 262144 < 8"
  by (simp_all add: less_mult_imp_div_less)

lemma utf8_dec1_two:
  assumes "a < 32" "m < 64" "128 \<le> a * 64 + m"
  shows "utf8_dec1 ((192 + a) # (128 + m) # r) = Some (a * 64 + m, r)"
  using assms by (simp add: Let_def cont_def)

lemma utf8_dec1_three:
  assumes "a < 16" "m < 64" "n < 64" "2048 \<le> a * 4096 + m * 64 + n"
  shows "utf8_dec1 ((224 + a) # (128 + m) # (128 + n) # r) = Some (a * 4096 + m * 64 + n, r)"
  using assms by (simp add: Let_def cont_def)

lemma utf8_dec1_four:
  assumes "a < 8" "m < 64" "n < 64" "k < 64"
    "65536 \<le> a * 262144 + m * 4096 + n * 64 + k" "a * 262144 + m * 4096 + n * 64 + k < 1114112"
  shows "utf8_dec1 ((240 + a) # (128 + m) # (128 + n) # (128 + k) # r)
     = Some (a * 262144 + m * 4096 + n * 64 + k, r)"
  using assms by (simp add: Let_def cont_def)

lemma utf8_dec1_enc:
  assumes "c < 1114112"
  shows "utf8_dec1 (utf8_enc c @ r) = Some (c, r)"
proof -
  have m64: "x mod 64 < 64" for x :: nat by simp
  consider "c < 128" | "128 \<le> c" "c < 2048" | "2048 \<le> c" "c < 65536" | "65536 \<le> c"
    by linarith
  then show ?thesis
  proof cases
    case 1
    then show ?thesis by (simp add: utf8_enc_def)
  next
    case 2
    have enc: "utf8_enc c @ r = (192 + c div 64) # (128 + c mod 64) # r"
      using 2 by (simp add: utf8_enc_def)
    have g: "128 \<le> c div 64 * 64 + c mod 64"
      unfolding split2 by (rule 2(1))
    show ?thesis
      unfolding enc utf8_dec1_two[OF div_bounds(1)[OF 2(2)] m64 g] split2 ..
  next
    case 3
    have enc: "utf8_enc c @ r = (224 + c div 4096) # (128 + (c div 64) mod 64) # (128 + c mod 64) # r"
      using 3 by (simp add: utf8_enc_def)
    have g: "2048 \<le> c div 4096 * 4096 + (c div 64) mod 64 * 64 + c mod 64"
      unfolding split3 by (rule 3(1))
    show ?thesis
      unfolding enc utf8_dec1_three[OF div_bounds(2)[OF 3(2)] m64 m64 g] split3 ..
  next
    case 4
    have enc: "utf8_enc c @ r = (240 + c div 262144) # (128 + (c div 4096) mod 64) #
        (128 + (c div 64) mod 64) # (128 + c mod 64) # r"
      using 4 by (simp add: utf8_enc_def)
    have g: "65536 \<le> c div 262144 * 262144 + (c div 4096) mod 64 * 4096 + (c div 64) mod 64 * 64 + c mod 64"
      unfolding split4 by (rule 4)
    have l: "c div 262144 * 262144 + (c div 4096) mod 64 * 4096 + (c div 64) mod 64 * 64 + c mod 64 < 1114112"
      unfolding split4 by (rule assms)
    show ?thesis
      unfolding enc utf8_dec1_four[OF div_bounds(3)[OF assms] m64 m64 m64 g l] split4 ..
  qed
qed

lemma utf8_enc_Cons: "\<exists>b bs. utf8_enc c = b # bs"
  by (simp add: utf8_enc_def)

lemma utf8_encode_Cons: "utf8_encode (c # cs) = utf8_enc c @ utf8_encode cs"
  by (simp add: utf8_encode_def)

lemma utf8_encode_length: "length cps \<le> length (utf8_encode cps)"
proof (induction cps)
  case Nil
  then show ?case by (simp add: utf8_encode_def)
next
  case (Cons c cs)
  obtain b bs where "utf8_enc c = b # bs" using utf8_enc_Cons by blast
  then show ?case using Cons by (simp add: utf8_encode_Cons)
qed

lemma utf8_decode_encode:
  "list_all (\<lambda>c. c < 1114112) cps \<Longrightarrow> length cps \<le> n \<Longrightarrow>
   utf8_decode n (utf8_encode cps) = Some cps"
proof (induction cps arbitrary: n)
  case Nil
  then show ?case by (simp add: utf8_encode_def)
next
  case (Cons c cs)
  from Cons.prems(2) obtain n' where n: "n = Suc n'" and le: "length cs \<le> n'"
    by (cases n) simp_all
  obtain b bs where e: "utf8_enc c @ utf8_encode cs = b # bs"
    using utf8_enc_Cons[of c] by auto
  have c: "c < 1114112" and cs: "list_all (\<lambda>c. c < 1114112) cs"
    using Cons.prems(1) by simp_all
  have d: "utf8_dec1 (b # bs) = Some (c, utf8_encode cs)"
    using utf8_dec1_enc[OF c, of "utf8_encode cs"] unfolding e .
  have "utf8_decode (Suc n') (b # bs) = Some (c # cs)"
    by (simp add: d Cons.IH[OF cs le] del: utf8_dec1.simps)
  then show ?case
    unfolding n utf8_encode_Cons e .
qed

lemma length_le_bytes: "length (le_bytes k n) = k"
  by (induction k arbitrary: n) simp_all

lemma le_value_le_bytes: "n < 256 ^ k \<Longrightarrow> le_value (le_bytes k n) = n"
proof (induction k arbitrary: n)
  case 0
  then show ?case by simp
next
  case (Suc k)
  have "n div 256 < 256 ^ k"
    using Suc.prems by (simp add: less_mult_imp_div_less mult.commute)
  then have "le_value (le_bytes k (n div 256)) = n div 256" by (rule Suc.IH)
  then show ?case by simp
qed

lemma le_bytes_small: "list_all (\<lambda>b. b < 256) (le_bytes k n)"
  by (induction k arbitrary: n) simp_all

lemma utf8_enc_small: "c < 1114112 \<Longrightarrow> list_all (\<lambda>b. b < 256) (utf8_enc c)"
proof -
  assume c: "c < 1114112"
  have m: "128 + x mod 64 < 256" for x :: nat
    using mod_less_divisor[of 64 x] by linarith
  have "c < 2048 \<Longrightarrow> 192 + c div 64 < 256"
    using div_bounds(1)[of c] by linarith
  moreover have "c < 65536 \<Longrightarrow> 224 + c div 4096 < 256"
    using div_bounds(2)[of c] by linarith
  moreover have "240 + c div 262144 < 256"
    using div_bounds(3)[OF c] by linarith
  ultimately show ?thesis
    using m by (simp add: utf8_enc_def)
qed

lemma utf8_encode_small:
  "list_all (\<lambda>c. c < 1114112) cps \<Longrightarrow> list_all (\<lambda>b. b < 256) (utf8_encode cps)"
  by (induction cps) (simp_all add: utf8_encode_def utf8_enc_small)

lemma take_le_bytes: "take k (le_bytes k n @ r) = le_bytes k n"
  by (simp add: length_le_bytes)

lemma drop_le_bytes: "drop k (le_bytes k n @ r) = r"
  by (simp add: length_le_bytes)

lemma read_header_str_header:
  assumes "str_header n = Some h"
  shows "read_header (h @ r) = Some (n, r)"
proof -
  consider "n < 256" | "256 \<le> n" "n < 2 ^ 32" | "2 ^ 32 \<le> n" "n < 2 ^ 64"
    using assms by (fastforce simp: str_header_def split: if_splits)
  then show ?thesis
  proof cases
    case 1
    then have h: "h = 140 # le_bytes 1 n" using assms by (simp add: str_header_def)
    have v: "le_value (le_bytes 1 n) = n"
      using 1 by (intro le_value_le_bytes) simp
    show ?thesis
      unfolding h using 1 by (simp add: read_header_def)
  next
    case 2
    then have h: "h = 88 # le_bytes 4 n" using assms by (simp add: str_header_def)
    have v: "le_value (le_bytes 4 n) = n"
      using 2 by (intro le_value_le_bytes) simp
    show ?thesis
      unfolding h by (simp add: read_header_def take_le_bytes drop_le_bytes v length_le_bytes)
  next
    case 3
    then have h: "h = 141 # le_bytes 8 n" using assms by (simp add: str_header_def)
    have v: "le_value (le_bytes 8 n) = n"
      using 3 by (intro le_value_le_bytes) simp
    show ?thesis
      unfolding h by (simp add: read_header_def take_le_bytes drop_le_bytes v length_le_bytes)
  qed
qed


lemma unpickle_pickle:
  assumes "pickle_str cps = Some bs"
  shows "unpickle_str bs = Some cps"
proof -
  let ?p = "utf8_encode cps"
  from assms have ok: "list_all (\<lambda>c. c < 1114112) cps"
    by (simp add: pickle_str_def split: if_splits)
  from assms ok obtain h where h: "str_header (length ?p) = Some h"
    by (auto simp: pickle_str_def split: option.splits)
  let ?body = "h @ ?p @ [148, 46]"
  from assms ok h have len: "length ?body < 2 ^ 64"
    and bs: "bs = [128, 4, 149] @ le_bytes 8 (length ?body) @ ?body"
    by (auto simp: pickle_str_def Let_def split: if_splits)
  have t3: "take 3 bs = [128, 4, 149]" by (simp add: bs)
  have d3: "drop 3 bs = le_bytes 8 (length ?body) @ ?body" by (simp add: bs)
  have d11: "drop 11 bs = ?body"
    by (simp add: bs length_le_bytes)
  have l11: "11 \<le> length bs" by (simp add: bs length_le_bytes)
  have "length ?body < 256 ^ 8" using len by simp
  then have lv: "le_value (take 8 (drop 3 bs)) = length (drop 11 bs)"
    unfolding d3 d11 take_le_bytes by (rule le_value_le_bytes)
  have rh: "read_header (drop 11 bs) = Some (length ?p, ?p @ [148, 46])"
    unfolding d11 by (rule read_header_str_header[OF h])
  have dec: "utf8_decode (length ?p) ?p = Some cps"
    using utf8_decode_encode[OF ok utf8_encode_length] .
  show ?thesis
    unfolding unpickle_str_def using t3 l11 lv by (simp add: rh dec)
qed

lemma pickle_small:
  assumes "pickle_str cps = Some bs"
  shows "list_all (\<lambda>b. b < 256) bs"
proof -
  let ?p = "utf8_encode cps"
  from assms have ok: "list_all (\<lambda>c. c < 1114112) cps"
    by (simp add: pickle_str_def split: if_splits)
  from assms ok obtain h where h: "str_header (length ?p) = Some h"
    by (auto simp: pickle_str_def split: option.splits)
  from assms ok h have bs: "bs = [128, 4, 149] @ le_bytes 8 (length (h @ ?p @ [148, 46])) @ h @ ?p @ [148, 46]"
    by (auto simp: pickle_str_def Let_def split: if_splits)
  have hs: "list_all (\<lambda>b. b < 256) h"
    using h le_bytes_small by (auto simp: str_header_def split: if_splits)
  show ?thesis
    unfolding bs using hs utf8_encode_small[OF ok] le_bytes_small by simp
qed

lemma unat_of_nat_bytes:
  "list_all (\<lambda>b. b < 256) bs \<Longrightarrow> map unat (map of_nat bs :: 8 word list) = bs"
  by (induction bs) (simp_all add: unat_of_nat)

lemma deserialize_serialize:
  assumes "serialize x = Some b"
  shows "deserialize b = Some x"
proof -
  from assms obtain bs where p: "pickle_str x = Some bs" and b: "b = map of_nat bs"
    by (auto simp: serialize_def)
  show ?thesis
    unfolding deserialize_def b unat_of_nat_bytes[OF pickle_small[OF p]]
    by (rule unpickle_pickle[OF p])
qed

lemma str_header_length:
  assumes "str_header n = Some h"
  shows "length h \<le> 9"
  using assms by (auto simp: str_header_def length_le_bytes split: if_splits)

lemma serialize_defined:
  assumes ok: "list_all (\<lambda>c. c < 1114112) x" and len: "length (utf8_encode x) + 11 < 2 ^ 64"
  shows "serialize x \<noteq> None"
proof -
  from len have "length (utf8_encode x) < 2 ^ 64" by simp
  then have "str_header (length (utf8_encode x)) \<noteq> None"
    by (simp add: str_header_def)
  then obtain h where h: "str_header (length (utf8_encode x)) = Some h"
    by blast
  have "length (h @ utf8_encode x @ [148, 46]) < 2 ^ 64"
    using str_header_length[OF h] len by simp
  then show ?thesis
    using ok h by (simp add: serialize_def pickle_str_def Let_def)
qed

lemma ipc_round_trip:
  assumes e: "buffer c = []" and p: "ipc_put x c = (c1, Accepted)"
  shows "snd (ipc_get c1) = Got x"
proof -
  from p obtain b where s: "serialize x = Some b" and pb: "put b c = (c1, Accepted)"
    by (auto simp: ipc_put_def split: option.splits)
  from pb e have "buffer c1 = [b]"
    by (auto simp: put_def split: if_splits)
  then show ?thesis
    by (simp add: ipc_get_def get_def deserialize_serialize[OF s])
qed

lemma ipc_put_unserializable: "serialize x = None \<Longrightarrow> ipc_put x c = (c, Failed SerializationError)"
  by (simp add: ipc_put_def)

lemma le_bytes_8:
  "le_bytes 8 n = [n mod 256, n div 256 mod 256, n div 256 div 256 mod 256,
     n div 256 div 256 div 256 mod 256, n div 256 div 256 div 256 div 256 mod 256,
     n div 256 div 256 div 256 div 256 div 256 mod 256,
     n div 256 div 256 div 256 div 256 div 256 div 256 mod 256,
     n div 256 div 256 div 256 div 256 div 256 div 256 div 256 mod 256]"
proof -
  have e: "(8::nat) = Suc (Suc (Suc (Suc (Suc (Suc (Suc (Suc 0)))))))" by simp
  show ?thesis unfolding e le_bytes.simps ..
qed

lemma pickle_masala_chai:
  "pickle_str masala_chai =
     Some [128, 4, 149, 29, 0, 0, 0, 0, 0, 0, 0, 140, 25, 226, 152, 149, 32, 77, 97, 115, 97, 108,
           97, 32, 99, 104, 97, 105, 32, 105, 115, 32, 114, 101, 97, 100, 121, 33, 148, 46]"
  by (simp add: pickle_str_def masala_chai_def utf8_encode_def utf8_enc_def str_header_def le_bytes_8)



text \<open>
  Claim C8. Whatever is serialized deserializes to itself: \<open>deserialize (serialize x) = x\<close>
  for every string that \<open>serialize\<close> accepts, and it accepts every string of valid code
  points whose pickle fits the 8-byte lengths. So an item put into an empty channel between
  processes is the item the next \<open>get\<close> returns, and an item that cannot be serialized
  fails the \<open>put\<close> with \<open>SerializationError\<close> and leaves the channel as it was. In the
  script the string the child process puts is the string the main process receives.
\<close>

theorem cross_process_round_trip:
  "(\<forall>x b. serialize x = Some b \<longrightarrow> deserialize b = Some x) \<and>
   (\<forall>x. list_all (\<lambda>c. c < 1114112) x \<and> length (utf8_encode x) + 11 < 2 ^ 64 \<longrightarrow>
      serialize x \<noteq> None) \<and>
   (\<forall>x c c1. buffer c = [] \<and> ipc_put x c = (c1, Accepted) \<longrightarrow> snd (ipc_get c1) = Got x) \<and>
   (\<forall>x c. serialize x = None \<longrightarrow> ipc_put x c = (c, Failed SerializationError)) \<and>
   serialize masala_chai =
     Some [128, 4, 149, 29, 0, 0, 0, 0, 0, 0, 0, 140, 25, 226, 152, 149, 32, 77, 97, 115, 97, 108,
           97, 32, 99, 104, 97, 105, 32, 105, 115, 32, 114, 101, 97, 100, 121, 33, 148, 46] \<and>
   process_queue_main = Got masala_chai"
proof -
  have a: "\<forall>x b. serialize x = Some b \<longrightarrow> deserialize b = Some x"
    using deserialize_serialize by blast
  have b: "\<forall>x. list_all (\<lambda>c. c < 1114112) x \<and> length (utf8_encode x) + 11 < 2 ^ 64 \<longrightarrow>
      serialize x \<noteq> None"
    using serialize_defined by blast
  have c: "\<forall>x c c1. buffer c = [] \<and> ipc_put x c = (c1, Accepted) \<longrightarrow> snd (ipc_get c1) = Got x"
    using ipc_round_trip by blast
  have d: "\<forall>x c. serialize x = None \<longrightarrow> ipc_put x c = (c, Failed SerializationError)"
    using ipc_put_unserializable by blast
  have e: "serialize masala_chai =
     Some [128, 4, 149, 29, 0, 0, 0, 0, 0, 0, 0, 140, 25, 226, 152, 149, 32, 77, 97, 115, 97, 108,
           97, 32, 99, 104, 97, 105, 32, 105, 115, 32, 114, 101, 97, 100, 121, 33, 148, 46]"
    by (simp add: serialize_def pickle_masala_chai)
  obtain bs where sb: "serialize masala_chai = Some bs" using e by blast
  have pc: "ipc_put masala_chai (new_channel None)
      = (\<lparr>buffer = [bs], capacity = None, closed = False\<rparr>, Accepted)"
    by (simp add: ipc_put_def sb put_def new_channel_def full_def)
  have "buffer (new_channel None :: 8 word list channel) = []"
    by (simp add: new_channel_def)
  from ipc_round_trip[OF this pc]
  have f: "process_queue_main = Got masala_chai"
    unfolding process_queue_main_def prepare_chai_def pc by simp
  from a b c d e f show ?thesis by (intro conjI)
qed

theorem cross_process_round_trip_witness:
  "serialize [233, 33] = Some [128, 4, 149, 7, 0, 0, 0, 0, 0, 0, 0, 140, 3, 195, 169, 33, 148, 46] \<and>
   deserialize [128, 4, 149, 7, 0, 0, 0, 0, 0, 0, 0, 140, 3, 195, 169, 33, 148, 46] = Some [233, 33] \<and>
   ipc_put [233, 33] (new_channel None)
     = (\<lparr>buffer = [[128, 4, 149, 7, 0, 0, 0, 0, 0, 0, 0, 140, 3, 195, 169, 33, 148, 46]],
         capacity = None, closed = False\<rparr>, Accepted) \<and>
   snd (ipc_get \<lparr>buffer = [[128, 4, 149, 7, 0, 0, 0, 0, 0, 0, 0, 140, 3, 195, 169, 33, 148, 46]],
         capacity = None, closed = False\<rparr>) = Got [233, 33]"
proof -
  let ?b = "[128, 4, 149, 7, 0, 0, 0, 0, 0, 0, 0, 140, 3, 195, 169, 33, 148, 46] :: 8 word list"
  have s: "serialize [233, 33] = Some ?b"
    by (simp add: serialize_def pickle_str_def utf8_encode_def utf8_enc_def str_header_def le_bytes_8)
  note inst = cross_process_round_trip
  have d: "deserialize ?b = Some [233, 33]"
    using inst[THEN conjunct1, rule_format, OF s] .
  have p: "ipc_put [233, 33] (new_channel None)
     = (\<lparr>buffer = [?b], capacity = None, closed = False\<rparr>, Accepted)"
    by (simp add: ipc_put_def s put_def new_channel_def full_def)
  have e: "buffer (new_channel None :: 8 word list channel) = [] \<and>
      ipc_put [233, 33] (new_channel None) = (\<lparr>buffer = [?b], capacity = None, closed = False\<rparr>, Accepted)"
    using p by (simp add: new_channel_def)
  have g: "snd (ipc_get \<lparr>buffer = [?b], capacity = None, closed = False\<rparr>) = Got [233, 33]"
    using inst[THEN conjunct2, THEN conjunct2, THEN conjunct1, rule_format, OF e] .
  from s d p g show ?thesis by (intro conjI)
qed

end
